theory Spec2Isabelle
  imports Complex_Main
begin

section \<open>JavaScript values used by the aggregation code\<close>

subsection \<open>Strings\<close>

text \<open>
  A JavaScript string is modelled as a \<^typ>\<open>string\<close>. All strings the date code builds
  are ASCII; \<open>a < b\<close> on strings compares code units from the left, a proper prefix
  being smaller.
\<close>

fun str_less :: "string \<Rightarrow> string \<Rightarrow> bool" where
  "str_less [] [] = False"
| "str_less [] (y # ys) = True"
| "str_less (x # xs) [] = False"
| "str_less (x # xs) (y # ys) =
     ((of_char x :: nat) < of_char y \<or> (x = y \<and> str_less xs ys))"

definition digit_char :: "nat \<Rightarrow> char" where
  "digit_char n = char_of (48 + n)"

text \<open>\<open>Number.prototype.toString()\<close> on an integer: decimal digits, a minus sign first.\<close>

fun show_nat :: "nat \<Rightarrow> string" where
  "show_nat n = (if n < 10 then [digit_char n] else show_nat (n div 10) @ [digit_char (n mod 10)])"

declare show_nat.simps [simp del]

definition toString :: "int \<Rightarrow> string" where
  "toString i = (if i < 0 then CHR ''-'' # show_nat (nat (- i)) else show_nat (nat i))"

text \<open>\<open>s.padStart(n, c)\<close> for a one-character filler.\<close>

definition padStart :: "nat \<Rightarrow> char \<Rightarrow> string \<Rightarrow> string" where
  "padStart n c s = replicate (n - length s) c @ s"

subsection \<open>Numbers\<close>

text \<open>
  Counts are natural numbers. The two quotients the statistics return are JavaScript
  numbers: a quotient (rounding of the binary floating-point format left out), or one of
  the values a division by zero produces.
\<close>

datatype number = Num rat | NaN | Infinity | NegInfinity

definition js_div :: "rat \<Rightarrow> rat \<Rightarrow> number" where
  "js_div a b =
     (if b = 0 then (if a = 0 then NaN else if 0 < a then Infinity else NegInfinity)
      else Num (a / b))"

fun js_times :: "number \<Rightarrow> rat \<Rightarrow> number" where
  "js_times (Num a) b = Num (a * b)"
| "js_times NaN b = NaN"
| "js_times Infinity b = (if b = 0 then NaN else if 0 < b then Infinity else NegInfinity)"
| "js_times NegInfinity b = (if b = 0 then NaN else if 0 < b then NegInfinity else Infinity)"

section \<open>The Date object\<close>

text \<open>
  A \<open>Date\<close> holds a time value: milliseconds since the epoch, or NaN (an Invalid Date),
  here \<open>None\<close>. The host supplies the clock, the offset of local time from UTC, the
  parser behind \<open>new Date(string)\<close> and the locale's short date format. One computation
  reads one clock value, and the offset is the same for every instant (no
  daylight-saving change); time values are not clipped to the range of \<open>Date\<close>.
\<close>

type_synonym Date = "int option"

record env =
  now :: int
  tzOffset :: int
  parseDate :: "string \<Rightarrow> Date"
  toLocaleDateString :: "string \<Rightarrow> string"

definition msPerDay :: int where
  "msPerDay = 86400000"

definition msPerHour :: int where
  "msPerHour = 3600000"

definition LocalTime :: "env \<Rightarrow> int \<Rightarrow> int" where
  "LocalTime e t = t + tzOffset e"

definition Day :: "int \<Rightarrow> int" where
  "Day t = t div msPerDay"

definition DaysInYear :: "int \<Rightarrow> int" where
  "DaysInYear y =
     (if y mod 4 \<noteq> 0 then 365 else if y mod 100 \<noteq> 0 then 366
      else if y mod 400 \<noteq> 0 then 365 else 366)"

definition DayFromYear :: "int \<Rightarrow> int" where
  "DayFromYear y =
     365 * (y - 1970) + (y - 1969) div 4 - (y - 1901) div 100 + (y - 1601) div 400"

text \<open>
  The first day of a year follows the first day of the year before by 365 or 366 days;
  the search for the year of a day below terminates by that.
\<close>

lemma succ_div:
  fixes x n :: int
  assumes "0 < n"
  shows "(x + 1) div n = x div n + (if (x + 1) mod n = 0 then 1 else 0)"
proof (cases "x mod n + 1 = n")
  case True
  have "x = n * (x div n) + x mod n" by simp
  with True have "x + 1 = n * (x div n) + n" by linarith
  then have e: "x + 1 = n * (x div n + 1) + 0"
    by (simp add: distrib_left)
  have "(x + 1) div n = x div n + 1"
    by (rule int_div_pos_eq[OF e]) (use assms in simp_all)
  moreover have "(x + 1) mod n = 0"
    by (rule int_mod_pos_eq[OF e]) (use assms in simp_all)
  ultimately show ?thesis by simp
next
  case False
  have r: "0 \<le> x mod n + 1" "x mod n + 1 < n"
    using assms False pos_mod_bound[of n x] pos_mod_sign[of n x] by linarith+
  have e: "x + 1 = n * (x div n) + (x mod n + 1)"
    by simp
  have "(x + 1) div n = x div n"
    by (rule int_div_pos_eq[OF e r])
  moreover have "(x + 1) mod n = x mod n + 1"
    by (rule int_mod_pos_eq[OF e r])
  moreover have "0 \<le> x mod n"
    using assms by simp
  ultimately show ?thesis by simp
qed

lemma shift_mod:
  fixes y :: int
  shows "(y - 1968) mod 4 = y mod 4" "(y - 1900) mod 100 = y mod 100"
    "(y - 1600) mod 400 = y mod 400"
proof -
  have "(y + (- 492) * 4) mod 4 = y mod 4" by (rule mod_mult_self1)
  then show "(y - 1968) mod 4 = y mod 4" by simp
  have "(y + (- 19) * 100) mod 100 = y mod 100" by (rule mod_mult_self1)
  then show "(y - 1900) mod 100 = y mod 100" by simp
  have "(y + (- 4) * 400) mod 400 = y mod 400" by (rule mod_mult_self1)
  then show "(y - 1600) mod 400 = y mod 400" by simp
qed

lemma mod_chain:
  fixes y :: int
  shows "y mod 100 = 0 \<Longrightarrow> y mod 4 = 0" "y mod 400 = 0 \<Longrightarrow> y mod 100 = 0"
proof -
  have a: "(4::int) dvd 100" "(100::int) dvd 400" by simp_all
  show "y mod 100 = 0 \<Longrightarrow> y mod 4 = 0"
    using dvd_trans[OF a(1), of y] by (simp add: mod_eq_0_iff_dvd)
  show "y mod 400 = 0 \<Longrightarrow> y mod 100 = 0"
    using dvd_trans[OF a(2), of y] by (simp add: mod_eq_0_iff_dvd)
qed

lemma DayFromYear_succ: "DayFromYear (y + 1) = DayFromYear y + DaysInYear y"
proof -
  have e4: "(y + 1 - 1969) div 4 = (y - 1969) div 4 + (if y mod 4 = 0 then 1 else 0)"
    using succ_div[of 4 "y - 1969"] shift_mod(1)[of y] by (simp add: algebra_simps)
  have e100: "(y + 1 - 1901) div 100 = (y - 1901) div 100 + (if y mod 100 = 0 then 1 else 0)"
    using succ_div[of 100 "y - 1901"] shift_mod(2)[of y] by (simp add: algebra_simps)
  have e400: "(y + 1 - 1601) div 400 = (y - 1601) div 400 + (if y mod 400 = 0 then 1 else 0)"
    using succ_div[of 400 "y - 1601"] shift_mod(3)[of y] by (simp add: algebra_simps)
  show ?thesis
    unfolding DayFromYear_def DaysInYear_def e4 e100 e400
    using mod_chain[of y] by auto
qed

lemma DaysInYear_cases: "DaysInYear y = 365 \<or> DaysInYear y = 366"
  by (simp add: DaysInYear_def)

lemma DayFromYear_pred: "DayFromYear (y - 1) < DayFromYear y"
  using DayFromYear_succ[of "y - 1"] DaysInYear_cases[of "y - 1"] by auto


text \<open>
  \<open>YearFromTime\<close>: the largest year whose first day is not after the given day, found
  from an estimate by stepping down and then up.
\<close>

function year_down :: "int \<Rightarrow> int \<Rightarrow> int" where
  "year_down y d = (if d < DayFromYear y then year_down (y - 1) d else y)"
  by pat_completeness auto
termination
proof (relation "measure (\<lambda>(y, d). nat (DayFromYear y - d))")
  show "wf (measure (\<lambda>(y, d). nat (DayFromYear y - d)))"
    by simp
next
  fix y d :: int
  assume "d < DayFromYear y"
  then show "((y - 1, d), (y, d)) \<in> measure (\<lambda>(y, d). nat (DayFromYear y - d))"
    using DayFromYear_pred[of y] by simp
qed

function year_up :: "int \<Rightarrow> int \<Rightarrow> int" where
  "year_up y d = (if DayFromYear (y + 1) \<le> d then year_up (y + 1) d else y)"
  by pat_completeness auto
termination
proof (relation "measure (\<lambda>(y, d). nat (d + 1 - DayFromYear (y + 1)))")
  show "wf (measure (\<lambda>(y, d). nat (d + 1 - DayFromYear (y + 1))))"
    by simp
next
  fix y d :: int
  assume a: "DayFromYear (y + 1) \<le> d"
  have "DayFromYear (y + 1 + 1 - 1) < DayFromYear (y + 1 + 1)"
    by (rule DayFromYear_pred)
  then have lt: "DayFromYear (y + 1) < DayFromYear (y + 1 + 1)"
    by (simp only: add_diff_cancel)
  show "((y + 1, d), (y, d)) \<in> measure (\<lambda>(y, d). nat (d + 1 - DayFromYear (y + 1)))"
    by (simp only: in_measure prod.case) (use a lt in linarith)
qed

declare year_down.simps [simp del] year_up.simps [simp del]

definition YearFromDay :: "int \<Rightarrow> int" where
  "YearFromDay d = year_up (year_down (1970 + d div 365) d) d"

definition DayWithinYear :: "int \<Rightarrow> int" where
  "DayWithinYear d = d - DayFromYear (YearFromDay d)"

definition InLeapYear :: "int \<Rightarrow> int" where
  "InLeapYear d = (if DaysInYear (YearFromDay d) = 366 then 1 else 0)"

text \<open>\<open>MonthFromTime\<close> (0 is January) and \<open>DateFromTime\<close>, by the table of the language.\<close>

definition MonthFromDay :: "int \<Rightarrow> int" where
  "MonthFromDay d =
     (let w = DayWithinYear d; l = InLeapYear d in
      if w < 31 then 0 else if w < 59 + l then 1 else if w < 90 + l then 2
      else if w < 120 + l then 3 else if w < 151 + l then 4 else if w < 181 + l then 5
      else if w < 212 + l then 6 else if w < 243 + l then 7 else if w < 273 + l then 8
      else if w < 304 + l then 9 else if w < 334 + l then 10 else 11)"

definition DateFromDay :: "int \<Rightarrow> int" where
  "DateFromDay d =
     (let w = DayWithinYear d; l = InLeapYear d; m = MonthFromDay d in
      if m = 0 then w + 1 else if m = 1 then w - 30 else if m = 2 then w - 58 - l
      else if m = 3 then w - 89 - l else if m = 4 then w - 119 - l
      else if m = 5 then w - 150 - l else if m = 6 then w - 180 - l
      else if m = 7 then w - 211 - l else if m = 8 then w - 242 - l
      else if m = 9 then w - 272 - l else if m = 10 then w - 303 - l else w - 333 - l)"

definition getFullYear :: "env \<Rightarrow> int \<Rightarrow> int" where
  "getFullYear e t = YearFromDay (Day (LocalTime e t))"

definition getMonth :: "env \<Rightarrow> int \<Rightarrow> int" where
  "getMonth e t = MonthFromDay (Day (LocalTime e t))"

definition getDate :: "env \<Rightarrow> int \<Rightarrow> int" where
  "getDate e t = DateFromDay (Day (LocalTime e t))"

definition getHours :: "env \<Rightarrow> int \<Rightarrow> nat" where
  "getHours e t = nat ((LocalTime e t div msPerHour) mod 24)"

definition getDay :: "env \<Rightarrow> int \<Rightarrow> nat" where
  "getDay e t = nat ((Day (LocalTime e t) + 4) mod 7)"

text \<open>
  \<open>date.setDate(dt)\<close> keeps the local year, month and time of day and sets the day of
  the month, overflowing into the neighbouring months: the time value moves by whole
  days.
\<close>

definition setDate :: "env \<Rightarrow> int \<Rightarrow> int \<Rightarrow> int" where
  "setDate e t dt = t + (dt - getDate e t) * msPerDay"


section \<open>Date utilities (utils/date.ts)\<close>

definition formatDateString :: "env \<Rightarrow> Date \<Rightarrow> string" where
  "formatDateString e date =
     (case date of
        None \<Rightarrow> ''NaN-NaN-NaN''
      | Some t \<Rightarrow>
          (let year = getFullYear e t;
               month = getMonth e t + 1;
               day = getDate e t;
               monthStr = padStart 2 (CHR ''0'') (toString month);
               dayStr = padStart 2 (CHR ''0'') (toString day)
           in toString year @ ''-'' @ monthStr @ ''-'' @ dayStr))"

definition getTodayDateString :: "env \<Rightarrow> string" where
  "getTodayDateString e = formatDateString e (Some (now e))"

definition getDateFromTimestamp :: "env \<Rightarrow> string \<Rightarrow> string" where
  "getDateFromTimestamp e isoTimestamp = formatDateString e (parseDate e isoTimestamp)"

text \<open>
  The label of a day: the last branch is the locale's rendering of the date string, which
  the host supplies.
\<close>

definition formatDateForDisplay :: "env \<Rightarrow> string \<Rightarrow> string" where
  "formatDateForDisplay e dateString =
     (if dateString = getTodayDateString e then ''Today''
      else let yesterday = setDate e (now e) (getDate e (now e) - 1) in
        if dateString = formatDateString e (Some yesterday) then ''Yesterday''
        else toLocaleDateString e dateString)"

text \<open>The loop \<open>for (i = n - 1; i >= 0; i--)\<close> visits \<open>n - 1, \<dots>, 0\<close>, and nothing when \<open>n \<le> 0\<close>.\<close>

definition getLastNDays :: "env \<Rightarrow> int \<Rightarrow> string list" where
  "getLastNDays e n =
     map (\<lambda>i. formatDateString e (Some (setDate e (now e) (getDate e (now e) - int i))))
       (rev [0..<nat n])"

definition getDaysAgoDateString :: "env \<Rightarrow> int \<Rightarrow> string" where
  "getDaysAgoDateString e daysAgo =
     formatDateString e (Some (setDate e (now e) (getDate e (now e) - daysAgo)))"

text \<open>The hour and the weekday of an Invalid Date are NaN, here \<open>None\<close>.\<close>

definition getHourFromTimestamp :: "env \<Rightarrow> string \<Rightarrow> nat option" where
  "getHourFromTimestamp e isoTimestamp = map_option (getHours e) (parseDate e isoTimestamp)"

definition getDayOfWeekFromTimestamp :: "env \<Rightarrow> string \<Rightarrow> nat option" where
  "getDayOfWeekFromTimestamp e isoTimestamp = map_option (getDay e) (parseDate e isoTimestamp)"

text \<open>Indexing the array of names past its end yields \<open>undefined\<close>, here \<open>None\<close>.\<close>

definition getDayName :: "nat \<Rightarrow> string option" where
  "getDayName dayOfWeek =
     (let days = [''Sunday'', ''Monday'', ''Tuesday'', ''Wednesday'', ''Thursday'', ''Friday'',
                  ''Saturday'']
      in if dayOfWeek < length days then Some (days ! dayOfWeek) else None)"

text \<open>The en dash of the label, as its three bytes in UTF-8.\<close>

definition enDash :: string where
  "enDash = [char_of (226 :: nat), char_of (128 :: nat), char_of (147 :: nat)]"

definition formatHourRange :: "nat \<Rightarrow> string" where
  "formatHourRange hour =
     (let startHour = (if hour mod 12 = 0 then 12 else hour mod 12);
          endHour = (if (hour + 1) mod 12 = 0 then 12 else (hour + 1) mod 12);
          period = (if hour < 12 then ''AM'' else ''PM'');
          endPeriod = (if hour + 1 < 12 \<or> hour + 1 = 24 then ''AM'' else ''PM'')
      in if period = endPeriod
         then show_nat startHour @ enDash @ show_nat endHour @ '' '' @ period
         else show_nat startHour @ '' '' @ period @ enDash @ show_nat endHour @ '' '' @ endPeriod)"

section \<open>Objects used as dictionaries\<close>

text \<open>
  A \<open>Record<string, number>\<close> keeps its keys in the order they were first written;
  \<open>obj[k] || 0\<close> reads a missing key, and a stored zero, as zero.
\<close>

fun assign :: "'k \<Rightarrow> nat \<Rightarrow> ('k \<times> nat) list \<Rightarrow> ('k \<times> nat) list" where
  "assign k v [] = [(k, v)]"
| "assign k v ((k', v') # obj) = (if k = k' then (k', v) # obj else (k', v') # assign k v obj)"

definition lookup0 :: "('k \<times> nat) list \<Rightarrow> 'k \<Rightarrow> nat" where
  "lookup0 obj k = (case map_of obj k of None \<Rightarrow> 0 | Some v \<Rightarrow> v)"

definition incr :: "'k \<Rightarrow> ('k \<times> nat) list \<Rightarrow> ('k \<times> nat) list" where
  "incr k obj = assign k (lookup0 obj k + 1) obj"

text \<open>
  A \<open>Record<number, number>\<close> written with small non-negative integers enumerates its keys
  in ascending numeric order, whatever the order of the writes; \<open>Object.entries\<close> is then
  the list itself, and \<open>parseInt\<close> of a key gives the number back.
\<close>

fun assignIdx :: "nat \<Rightarrow> nat \<Rightarrow> (nat \<times> nat) list \<Rightarrow> (nat \<times> nat) list" where
  "assignIdx k v [] = [(k, v)]"
| "assignIdx k v ((k', v') # obj) =
     (if k = k' then (k', v) # obj
      else if k < k' then (k, v) # (k', v') # obj
      else (k', v') # assignIdx k v obj)"

definition incrIdx :: "nat \<Rightarrow> (nat \<times> nat) list \<Rightarrow> (nat \<times> nat) list" where
  "incrIdx k obj = assignIdx k (lookup0 obj k + 1) obj"

text \<open>\<open>Array.prototype.sort()\<close> with no comparator, on strings.\<close>

fun insert_str :: "string \<Rightarrow> string list \<Rightarrow> string list" where
  "insert_str s [] = [s]"
| "insert_str s (x # xs) = (if str_less x s then x # insert_str s xs else s # x # xs)"

definition sort_str :: "string list \<Rightarrow> string list" where
  "sort_str xs = foldr insert_str xs []"


section \<open>Slip events and the event store (stores/slipStore.ts)\<close>

datatype Source = Manual | UndoRestore

record SlipEvent =
  id' :: string
  timestamp :: string
  source :: Source

record SlipStore =
  events :: "SlipEvent list"
  isLoading :: bool
  lastSlipId :: "string option"
  lastSlipTime :: "number option"

definition initialStore :: SlipStore where
  "initialStore = \<lparr>events = [], isLoading = True, lastSlipId = None, lastSlipTime = None\<rparr>"

text \<open>
  \<open>new Date(now).toISOString()\<close>: the UTC fields of the instant, the year with four
  digits, or with a sign and six digits outside 0 to 9999.
\<close>

definition pad :: "nat \<Rightarrow> int \<Rightarrow> string" where
  "pad n i = padStart n (CHR ''0'') (toString i)"

definition toISOString :: "int \<Rightarrow> string" where
  "toISOString t =
     (let d = Day t; y = YearFromDay d;
          yearStr = (if 0 \<le> y \<and> y \<le> 9999 then pad 4 y
                     else (if y < 0 then CHR ''-'' else CHR ''+'') # pad 6 \<bar>y\<bar>)
      in yearStr @ ''-'' @ pad 2 (MonthFromDay d + 1) @ ''-'' @ pad 2 (DateFromDay d) @ ''T''
         @ pad 2 ((t div msPerHour) mod 24) @ '':'' @ pad 2 ((t div 60000) mod 60) @ '':''
         @ pad 2 ((t div 1000) mod 60) @ ''.'' @ pad 3 (t mod 1000) @ ''Z'')"

text \<open>
  The truth value of \<open>lastSlipId\<close> and of \<open>lastSlipTime\<close> in a condition: \<open>null\<close>, the
  empty string, zero and NaN are false.
\<close>

definition truthy_str :: "string option \<Rightarrow> bool" where
  "truthy_str v = (case v of None \<Rightarrow> False | Some s \<Rightarrow> s \<noteq> [])"

definition truthy_num :: "number option \<Rightarrow> bool" where
  "truthy_num v = (case v of None \<Rightarrow> False | Some (Num r) \<Rightarrow> r \<noteq> 0 | Some NaN \<Rightarrow> False
                   | Some _ \<Rightarrow> True)"

text \<open>\<open>Date.now() - lastSlipTime > UNDO_WINDOW_MS\<close>; a comparison with NaN is false.\<close>

definition UNDO_WINDOW_MS :: int where
  "UNDO_WINDOW_MS = 5 * 60 * 1000"

definition window_elapsed :: "int \<Rightarrow> number \<Rightarrow> bool" where
  "window_elapsed now_ms t =
     (case t of Num r \<Rightarrow> of_int now_ms - r > of_int UNDO_WINDOW_MS | NaN \<Rightarrow> False
      | Infinity \<Rightarrow> False | NegInfinity \<Rightarrow> True)"

text \<open>
  \<open>loadEvents\<close> receives what the two reads of the persistence layer gave: the stored
  events, or a value the body of the \<open>try\<close> fails on (\<open>Inl\<close>), and the stored time of the
  last slip (\<open>null\<close>, a number or NaN). The writes to the persistence layer do not change
  the store, and a failed write is only logged.
\<close>

definition loadEvents :: "unit + SlipEvent list \<Rightarrow> number option \<Rightarrow> SlipStore \<Rightarrow> SlipStore" where
  "loadEvents storedEvents storedTime s =
     (let s1 = s\<lparr>isLoading := True\<rparr> in
      case storedEvents of
        Inl _ \<Rightarrow> s1\<lparr>isLoading := False\<rparr>
      | Inr evs \<Rightarrow>
          s1\<lparr>events := evs,
             lastSlipId := (if length evs > 0 then Some (id' (last evs)) else None),
             lastSlipTime := storedTime,
             isLoading := False\<rparr>)"

text \<open>\<open>addSlip\<close> reads the clock and draws a fresh identifier; both are arguments here.\<close>

definition addSlip :: "int \<Rightarrow> string \<Rightarrow> SlipStore \<Rightarrow> SlipStore" where
  "addSlip now_ms newId s =
     (let newEvent = \<lparr>id' = newId, timestamp = toISOString now_ms, source = Manual\<rparr>;
          updatedEvents = events s @ [newEvent]
      in s\<lparr>events := updatedEvents, lastSlipId := Some (id' newEvent),
            lastSlipTime := Some (Num (of_int now_ms))\<rparr>)"

definition deleteSlip :: "string \<Rightarrow> SlipStore \<Rightarrow> SlipStore" where
  "deleteSlip i s = s\<lparr>events := filter (\<lambda>event. id' event \<noteq> i) (events s)\<rparr>"

definition undoLastSlip :: "int \<Rightarrow> SlipStore \<Rightarrow> bool \<times> SlipStore" where
  "undoLastSlip now_ms s =
     (if \<not> truthy_str (lastSlipId s) \<or> \<not> truthy_num (lastSlipTime s) then (False, s)
      else case (lastSlipId s, lastSlipTime s) of
        (Some i, Some t) \<Rightarrow>
          if window_elapsed now_ms t then (False, s)
          else (True, s\<lparr>events := filter (\<lambda>event. id' event \<noteq> i) (events s),
                        lastSlipId := None, lastSlipTime := None\<rparr>)
      | _ \<Rightarrow> (False, s))"

definition clearAllEvents :: "SlipStore \<Rightarrow> SlipStore" where
  "clearAllEvents s = s\<lparr>events := [], lastSlipId := None, lastSlipTime := None\<rparr>"

subsection \<open>The persistence layer (services/storage.ts)\<close>

text \<open>
  What the two keys of the device storage hold, as the reads of the store see it.
  \<open>eventsItem\<close>: \<open>None\<close> when there is no item or its text is not JSON (\<open>getEvents\<close> gives the
  empty list for both); \<open>Some (Inr evs)\<close> for the text of the array \<open>evs\<close>, as \<open>saveEvents\<close>
  writes it; \<open>Some (Inl ())\<close> for the text \<open>null\<close>, on which the body of \<open>loadEvents\<close>
  throws. \<open>lastSlipTimeItem\<close>: \<open>None\<close> when there is no item or it is the empty string;
  \<open>Some n\<close> for a text that \<open>parseInt\<close> reads as \<open>n\<close> (NaN when it does not start with a
  number), as \<open>setLastSlipTime\<close> writes the decimal text of the time.
\<close>

record AsyncStorage =
  eventsItem :: "(unit + SlipEvent list) option"
  lastSlipTimeItem :: "number option"

definition emptyStorage :: AsyncStorage where
  "emptyStorage = \<lparr>eventsItem = None, lastSlipTimeItem = None\<rparr>"

text \<open>
  The two reads catch their own faults: a read of the storage that fails gives the empty
  list, or \<open>null\<close>.
\<close>

definition getEvents :: "bool \<Rightarrow> AsyncStorage \<Rightarrow> unit + SlipEvent list" where
  "getEvents readFails st =
     (if readFails then Inr [] else case eventsItem st of None \<Rightarrow> Inr [] | Some v \<Rightarrow> v)"

definition getLastSlipTime :: "bool \<Rightarrow> AsyncStorage \<Rightarrow> number option" where
  "getLastSlipTime readFails st = (if readFails then None else lastSlipTimeItem st)"

text \<open>The two writes, when the storage accepts them.\<close>

definition saveEvents :: "SlipEvent list \<Rightarrow> AsyncStorage \<Rightarrow> AsyncStorage" where
  "saveEvents evs st = st\<lparr>eventsItem := Some (Inr evs)\<rparr>"

definition setLastSlipTime :: "int \<Rightarrow> AsyncStorage \<Rightarrow> AsyncStorage" where
  "setLastSlipTime t st = st\<lparr>lastSlipTimeItem := Some (Num (of_int t))\<rparr>"

text \<open>
  The actions of the store together with their writes, in a run where the storage accepts
  every write and answers every read: \<open>addSlip\<close> saves the events and the time of the
  slip; \<open>deleteSlip\<close>, a successful \<open>undoLastSlip\<close> and \<open>clearAllEvents\<close> save the events
  only, and leave the stored time of the last slip as it is.
\<close>

definition addSlip_persist ::
  "int \<Rightarrow> string \<Rightarrow> SlipStore \<times> AsyncStorage \<Rightarrow> SlipStore \<times> AsyncStorage" where
  "addSlip_persist now_ms newId a =
     (let s = addSlip now_ms newId (fst a)
      in (s, setLastSlipTime now_ms (saveEvents (events s) (snd a))))"

definition deleteSlip_persist ::
  "string \<Rightarrow> SlipStore \<times> AsyncStorage \<Rightarrow> SlipStore \<times> AsyncStorage" where
  "deleteSlip_persist i a =
     (let s = deleteSlip i (fst a) in (s, saveEvents (events s) (snd a)))"


definition clearAllEvents_persist :: "SlipStore \<times> AsyncStorage \<Rightarrow> SlipStore \<times> AsyncStorage" where
  "clearAllEvents_persist a = (clearAllEvents (fst a), saveEvents [] (snd a))"





section \<open>The streak calculator (hooks/useStreak.ts)\<close>

record StreakInfo =
  current :: nat
  best :: nat

definition countEvents :: "env \<Rightarrow> SlipEvent list \<Rightarrow> (string \<times> nat) list \<Rightarrow> (string \<times> nat) list" where
  "countEvents e evs obj =
     fold (\<lambda>event counts. incr (getDateFromTimestamp e (timestamp event)) counts) evs obj"

text \<open>
  The \<open>while (true)\<close> walk back from today, started with \<open>currentStreak = 0\<close> and
  \<open>daysAgo = 0\<close>. It ends at the first day over the limit, or once \<open>daysAgo\<close> has passed
  365.
\<close>

function currentStreakLoop :: "env \<Rightarrow> (string \<times> nat) list \<Rightarrow> int \<Rightarrow> nat \<Rightarrow> nat \<Rightarrow> nat" where
  "currentStreakLoop e countsByDate limit currentStreak daysAgo =
     (let dateToCheck = getDaysAgoDateString e (int daysAgo);
          slipsOnDay = lookup0 countsByDate dateToCheck
      in if int slipsOnDay \<le> limit
         then (if daysAgo + 1 > 365 then currentStreak + 1
               else currentStreakLoop e countsByDate limit (currentStreak + 1) (daysAgo + 1))
         else currentStreak)"
  by pat_completeness auto
termination
  by (relation "measure (\<lambda>(e, c, l, s, daysAgo). 366 - daysAgo)") auto

declare currentStreakLoop.simps [simp del]

text \<open>
  The scan for the best streak, from the first logged day to today. The two \<open>Date\<close>s come
  from the host's parser applied to date strings; \<open>checkDate <= endDate\<close> compares time
  values.
\<close>

function bestStreakLoop ::
  "env \<Rightarrow> (string \<times> nat) list \<Rightarrow> int \<Rightarrow> int \<Rightarrow> int \<Rightarrow> nat \<Rightarrow> nat \<Rightarrow> nat" where
  "bestStreakLoop e countsByDate limit endDate checkDate tempStreak bestStreak =
     (if checkDate \<le> endDate
      then (let dateStr = formatDateString e (Some checkDate);
                slipsOnDay = lookup0 countsByDate dateStr;
                next = setDate e checkDate (getDate e checkDate + 1)
            in if int slipsOnDay \<le> limit
               then bestStreakLoop e countsByDate limit endDate next (tempStreak + 1)
                      (max bestStreak (tempStreak + 1))
               else bestStreakLoop e countsByDate limit endDate next 0 bestStreak)
      else bestStreak)"
  by pat_completeness auto
termination
  by (relation "measure (\<lambda>(e, c, l, endDate, checkDate, t, b). nat (endDate + 1 - checkDate))")
     (auto simp: setDate_def msPerDay_def)

declare bestStreakLoop.simps [simp del]

definition useStreak :: "env \<Rightarrow> SlipEvent list \<Rightarrow> int \<Rightarrow> StreakInfo" where
  "useStreak e evs limit =
     (let countsByDate = countEvents e evs [];
          currentStreak = currentStreakLoop e countsByDate limit 0 0;
          allDates = sort_str (map fst countsByDate)
      in case allDates of
           [] \<Rightarrow> \<lparr>current = currentStreak, best = currentStreak\<rparr>
         | firstDate # _ \<Rightarrow>
             (let today = getTodayDateString e;
                  bestStreak =
                    (case (parseDate e firstDate, parseDate e today) of
                       (Some checkDate, Some endDate) \<Rightarrow>
                         bestStreakLoop e countsByDate limit endDate checkDate 0 0
                     | _ \<Rightarrow> 0)
              in \<lparr>current = currentStreak, best = max bestStreak currentStreak\<rparr>))"


section \<open>The range statistics (hooks/useStats.ts)\<close>

definition MIN_DAYS_FOR_PATTERNS :: nat where
  "MIN_DAYS_FOR_PATTERNS = 3"

record DayCount =
  date :: string
  displayDate :: string
  count :: nat
  isOverLimit :: bool

record StatsData =
  totalSlips :: nat
  avgPerDay :: number
  bestDay :: "DayCount option"
  worstDay :: "DayCount option"
  daysUnderLimitPercent :: number
  dailyCounts :: "DayCount list"
  peakHour :: "string option"
  peakDayOfWeek :: "string option"
  hasEnoughDataForPatterns :: bool
  hasAnyData :: bool

text \<open>The body of the \<open>forEach\<close> that finds the best and the worst day.\<close>

definition bestWorstStep ::
  "DayCount \<Rightarrow> DayCount option \<times> DayCount option \<Rightarrow> DayCount option \<times> DayCount option" where
  "bestWorstStep day bw =
     (let bestDay' = (case fst bw of
                        None \<Rightarrow> Some day
                      | Some b \<Rightarrow> if count day < count b then Some day else Some b);
          worstDay' = (case snd bw of
                         None \<Rightarrow> Some day
                       | Some w \<Rightarrow> if count day > count w then Some day else Some w)
      in (bestDay', worstDay'))"

text \<open>
  The bucket loops. An event in the range has a valid date (the key of an Invalid Date is
  not a day of the range), so the bucket of NaN is left out.
\<close>

definition bucketBy :: "(string \<Rightarrow> nat option) \<Rightarrow> SlipEvent list \<Rightarrow> (nat \<times> nat) list" where
  "bucketBy key evs =
     fold (\<lambda>event obj. case key (timestamp event) of None \<Rightarrow> obj | Some k \<Rightarrow> incrIdx k obj)
       evs []"

text \<open>The scan of \<open>Object.entries\<close> for the fullest bucket: the pair (count, key).\<close>

definition peakStep :: "nat \<times> nat \<Rightarrow> nat \<times> nat \<Rightarrow> nat \<times> nat" where
  "peakStep entry m = (if snd entry > fst m then (snd entry, fst entry) else m)"

definition peakScan :: "(nat \<times> nat) list \<Rightarrow> nat \<times> nat" where
  "peakScan entries = fold peakStep entries (0, 0)"

text \<open>The events of the range: those whose date string is one of the days of the range.\<close>

definition eventsInRange :: "env \<Rightarrow> int \<Rightarrow> SlipEvent list \<Rightarrow> SlipEvent list" where
  "eventsInRange e range' evs =
     (let datesInRange = getLastNDays e range'; dateSet = set datesInRange
      in filter (\<lambda>event. getDateFromTimestamp e (timestamp event) \<in> dateSet) evs)"

definition useStats :: "env \<Rightarrow> int \<Rightarrow> SlipEvent list \<Rightarrow> int \<Rightarrow> StatsData" where
  "useStats e range' evs dailyLimit =
     (let datesInRange = getLastNDays e range';
          eventsInRange = eventsInRange e range' evs;
          countsByDate =
            countEvents e eventsInRange (fold (\<lambda>date obj. assign date 0 obj) datesInRange []);
          dailyCounts =
            map (\<lambda>date. \<lparr>date = date, displayDate = formatDateForDisplay e date,
                          count = lookup0 countsByDate date,
                          isOverLimit = int (lookup0 countsByDate date) > dailyLimit\<rparr>)
              (rev datesInRange);
          totalSlips = length eventsInRange;
          avgPerDay = (if range' > 0 then js_div (of_nat totalSlips) (of_int range') else Num 0);
          bw = fold bestWorstStep dailyCounts (None, None);
          daysUnderLimit = length (filter (\<lambda>d. int (count d) \<le> dailyLimit) dailyCounts);
          daysUnderLimitPercent =
            (if range' > 0 then js_times (js_div (of_nat daysUnderLimit) (of_int range')) 100
             else Num 0);
          uniqueDaysWithEvents =
            length (remdups (map (\<lambda>ev. getDateFromTimestamp e (timestamp ev)) eventsInRange));
          hasEnoughDataForPatterns = (uniqueDaysWithEvents \<ge> MIN_DAYS_FOR_PATTERNS);
          eligible = (hasEnoughDataForPatterns \<and> length eventsInRange \<ge> 3);
          hourPeak = peakScan (bucketBy (getHourFromTimestamp e) eventsInRange);
          dowPeak = peakScan (bucketBy (getDayOfWeekFromTimestamp e) eventsInRange);
          peakHour = (if eligible \<and> fst hourPeak \<ge> 2 then Some (formatHourRange (snd hourPeak))
                      else None);
          peakDayOfWeek = (if eligible \<and> fst dowPeak \<ge> 2 then getDayName (snd dowPeak)
                           else None)
      in \<lparr>totalSlips = totalSlips, avgPerDay = avgPerDay, bestDay = fst bw, worstDay = snd bw,
          daysUnderLimitPercent = daysUnderLimitPercent, dailyCounts = dailyCounts,
          peakHour = peakHour, peakDayOfWeek = peakDayOfWeek,
          hasEnoughDataForPatterns = hasEnoughDataForPatterns,
          hasAnyData = (length evs > 0)\<rparr>)"

text \<open>
  A reading of ISO timestamps, for hosts in the examples: the 24-character form
  \<open>YYYY-MM-DDTHH:mm:ss.sssZ\<close> that \<open>toISOString\<close> writes and the date-only form
  \<open>YYYY-MM-DD\<close>, both in UTC; every other string is an Invalid Date.
\<close>

definition digit_val :: "char \<Rightarrow> nat option" where
  "digit_val c = (let n = (of_char c :: nat) in if 48 \<le> n \<and> n \<le> 57 then Some (n - 48) else None)"

fun parse_digits :: "string \<Rightarrow> nat \<Rightarrow> nat option" where
  "parse_digits [] acc = Some acc"
| "parse_digits (c # cs) acc =
     (case digit_val c of None \<Rightarrow> None | Some v \<Rightarrow> parse_digits cs (10 * acc + v))"

definition digits_at :: "string \<Rightarrow> nat \<Rightarrow> nat \<Rightarrow> nat option" where
  "digits_at s from len = parse_digits (take len (drop from s)) 0"

definition MakeDay :: "int \<Rightarrow> int \<Rightarrow> int \<Rightarrow> int" where
  "MakeDay y m d =
     (let l = (if DaysInYear y = 366 then 1 else 0);
          start = (if m = 1 then 0 else if m = 2 then 31 else if m = 3 then 59 + l
                   else if m = 4 then 90 + l else if m = 5 then 120 + l
                   else if m = 6 then 151 + l else if m = 7 then 181 + l
                   else if m = 8 then 212 + l else if m = 9 then 243 + l
                   else if m = 10 then 273 + l else if m = 11 then 304 + l else 334 + l)
      in DayFromYear y + start + d - 1)"

definition isoDate :: "string \<Rightarrow> int option" where
  "isoDate s =
     (if length s = 10 \<and> s ! 4 = CHR ''-'' \<and> s ! 7 = CHR ''-''
      then (case (digits_at s 0 4, digits_at s 5 2, digits_at s 8 2) of
              (Some y, Some m, Some d) \<Rightarrow>
                if 1 \<le> m \<and> m \<le> 12 \<and> 1 \<le> d \<and> d \<le> 31
                then Some (MakeDay (int y) (int m) (int d)) else None
            | _ \<Rightarrow> None)
      else None)"

definition isoTime :: "string \<Rightarrow> int option" where
  "isoTime s =
     (if length s = 14 \<and> s ! 0 = CHR ''T'' \<and> s ! 3 = CHR '':'' \<and> s ! 6 = CHR '':''
         \<and> s ! 9 = CHR ''.'' \<and> s ! 13 = CHR ''Z''
      then (case (digits_at s 1 2, digits_at s 4 2, digits_at s 7 2, digits_at s 10 3) of
              (Some h, Some mi, Some sec, Some ms) \<Rightarrow>
                if h < 24 \<and> mi < 60 \<and> sec < 60
                then Some (int h * msPerHour + int mi * 60000 + int sec * 1000 + int ms)
                else None
            | _ \<Rightarrow> None)
      else None)"

definition isoParse :: "string \<Rightarrow> Date" where
  "isoParse s =
     (case isoDate (take 10 s) of
        None \<Rightarrow> None
      | Some d \<Rightarrow>
          if length s = 10 then Some (d * msPerDay)
          else (case isoTime (drop 10 s) of
                  None \<Rightarrow> None
                | Some t \<Rightarrow> Some (d * msPerDay + t)))"


text \<open>
  The host of the examples: a device on UTC whose clock reads 2025-01-16T12:00:00.000Z.
\<close>

definition utcHost :: env where
  "utcHost = \<lparr>now = 1737028800000, tzOffset = 0, parseDate = isoParse,
               toLocaleDateString = (\<lambda>s. s)\<rparr>"

definition slip :: "string \<Rightarrow> string \<Rightarrow> SlipEvent" where
  "slip i t = \<lparr>id' = i, timestamp = t, source = Manual\<rparr>"

section \<open>The undo state of the event store\<close>

text \<open>
  The undo state is the pair \<open>lastSlipId\<close>, \<open>lastSlipTime\<close>. Its invariant: both are
  present or both are absent (\<open>null\<close>).
\<close>

definition undoInvariant :: "SlipStore \<Rightarrow> bool" where
  "undoInvariant s = ((lastSlipId s = None) = (lastSlipTime s = None))"

text \<open>
  The undo state is armed when both fields pass the test of \<open>undoLastSlip\<close>, and a call
  at \<open>now_ms\<close> is within the window when no more than five minutes have passed since
  \<open>lastSlipTime\<close>.
\<close>

definition armed :: "SlipStore \<Rightarrow> bool" where
  "armed s = (truthy_str (lastSlipId s) \<and> truthy_num (lastSlipTime s))"

definition withinWindow :: "int \<Rightarrow> SlipStore \<Rightarrow> bool" where
  "withinWindow now_ms s =
     (case lastSlipTime s of None \<Rightarrow> False | Some t \<Rightarrow> \<not> window_elapsed now_ms t)"

lemma undoLastSlip_success:
  assumes "armed s" "withinWindow now_ms s"
  shows "undoLastSlip now_ms s =
    (True, s\<lparr>events := filter (\<lambda>event. Some (id' event) \<noteq> lastSlipId s) (events s),
              lastSlipId := None, lastSlipTime := None\<rparr>)"
  using assms
  by (auto simp: undoLastSlip_def armed_def withinWindow_def truthy_str_def truthy_num_def
      split: option.splits)

lemma undoLastSlip_refused:
  assumes "\<not> armed s \<or> \<not> withinWindow now_ms s"
  shows "undoLastSlip now_ms s = (False, s)"
  using assms
  by (auto simp: undoLastSlip_def armed_def withinWindow_def truthy_str_def truthy_num_def
      split: option.splits)

subsection \<open>Undo after a record\<close>








text \<open>A store with one earlier slip, and its storage.\<close>

definition oneSlip :: "SlipStore \<times> AsyncStorage" where
  "oneSlip = addSlip_persist 1737028800000 ''m5x1abc'' (initialStore, emptyStorage)"

lemma oneSlip_store:
  "map id' (events (fst oneSlip)) = [''m5x1abc'']" "lastSlipId (fst oneSlip) = Some ''m5x1abc''"
  "lastSlipTime (fst oneSlip) = Some (Num 1737028800000)"
  "lastSlipTimeItem (snd oneSlip) = Some (Num 1737028800000)"
  "eventsItem (snd oneSlip) = Some (Inr (events (fst oneSlip)))"
  by (simp_all add: oneSlip_def addSlip_persist_def addSlip_def initialStore_def Let_def
      saveEvents_def setLastSlipTime_def)











text \<open>
  Claim C10. If the event an armed undo state refers to has been removed by \<open>deleteSlip\<close>,
  a call of \<open>undoLastSlip\<close> within the window still returns true, leaves the list of
  events as it is, and clears \<open>lastSlipId\<close> and \<open>lastSlipTime\<close>.
\<close>

theorem undoLastSlip_after_deleteSlip:
  assumes "armed s" "withinWindow now_ms s" "lastSlipId s = Some i"
  shows "fst (undoLastSlip now_ms (deleteSlip i s))
    \<and> events (snd (undoLastSlip now_ms (deleteSlip i s))) = events (deleteSlip i s)
    \<and> lastSlipId (snd (undoLastSlip now_ms (deleteSlip i s))) = None
    \<and> lastSlipTime (snd (undoLastSlip now_ms (deleteSlip i s))) = None"
proof -
  have a: "armed (deleteSlip i s)" "withinWindow now_ms (deleteSlip i s)"
    using assms(1,2) by (simp_all add: armed_def withinWindow_def deleteSlip_def)
  have "filter (\<lambda>event. Some (id' event) \<noteq> lastSlipId (deleteSlip i s)) (events (deleteSlip i s))
      = events (deleteSlip i s)"
    using assms(3) by (simp add: deleteSlip_def)
  then show ?thesis
    using undoLastSlip_success[OF a] by simp
qed

theorem undoLastSlip_after_deleteSlip_witness:
  "armed (addSlip 1737028800000 ''m5x1abc'' initialStore)
   \<and> withinWindow 1737028801000 (addSlip 1737028800000 ''m5x1abc'' initialStore)
   \<and> lastSlipId (addSlip 1737028800000 ''m5x1abc'' initialStore) = Some ''m5x1abc''
   \<and> fst (undoLastSlip 1737028801000
            (deleteSlip ''m5x1abc'' (addSlip 1737028800000 ''m5x1abc'' initialStore)))
   \<and> events (snd (undoLastSlip 1737028801000
            (deleteSlip ''m5x1abc'' (addSlip 1737028800000 ''m5x1abc'' initialStore))))
       = events (deleteSlip ''m5x1abc'' (addSlip 1737028800000 ''m5x1abc'' initialStore))
   \<and> lastSlipId (snd (undoLastSlip 1737028801000
            (deleteSlip ''m5x1abc'' (addSlip 1737028800000 ''m5x1abc'' initialStore)))) = None
   \<and> lastSlipTime (snd (undoLastSlip 1737028801000
            (deleteSlip ''m5x1abc'' (addSlip 1737028800000 ''m5x1abc'' initialStore)))) = None"
proof -
  define s where "s = addSlip 1737028800000 ''m5x1abc'' initialStore"
  have a: "armed s" "withinWindow 1737028801000 s" "lastSlipId s = Some ''m5x1abc''"
    by (simp_all add: s_def armed_def withinWindow_def addSlip_def truthy_str_def
        truthy_num_def window_elapsed_def UNDO_WINDOW_MS_def)
  from undoLastSlip_after_deleteSlip[OF a] a show ?thesis
    unfolding s_def by blast
qed

text \<open>
  Claim C4, as amended. \<open>addSlip\<close>, \<open>deleteSlip\<close>, \<open>undoLastSlip\<close> and \<open>clearAllEvents\<close>
  preserve the invariant of the undo state from every state. \<open>loadEvents\<close> preserves it
  when the body of its \<open>try\<close> throws, as on stored events that are the text \<open>null\<close>: the
  undo state is then left as it was. In every other case, and a read of the storage that
  fails is one of them, since \<open>getEvents\<close> and \<open>getLastSlipTime\<close> catch their own faults
  and give the empty list and \<open>null\<close>, \<open>loadEvents\<close> takes \<open>lastSlipId\<close> from the events it
  got and \<open>lastSlipTime\<close> from the time it got, and the invariant holds afterwards exactly
  when the events are empty and the time is absent, or neither. So it holds when both
  reads fail, and it is broken when the read of the events fails and the read of a stored
  time succeeds.
\<close>

theorem undoInvariant_store_actions:
  "(undoInvariant s \<longrightarrow>
      undoInvariant (addSlip now_ms newId s)
      \<and> undoInvariant (deleteSlip i s)
      \<and> undoInvariant (snd (undoLastSlip now_ms s))
      \<and> undoInvariant (clearAllEvents s)
      \<and> undoInvariant (loadEvents (Inl ()) storedTime s)
      \<and> (eventsItem st = Some (Inl ()) \<longrightarrow>
           undoInvariant (loadEvents (getEvents False st) (getLastSlipTime timeFails st) s)))
   \<and> (undoInvariant (loadEvents (Inr evs) storedTime s) \<longleftrightarrow> (evs = [] \<longleftrightarrow> storedTime = None))
   \<and> (getEvents eventsFail st = Inr evs \<longrightarrow>
        (undoInvariant (loadEvents (getEvents eventsFail st) (getLastSlipTime timeFails st) s)
           \<longleftrightarrow> (evs = [] \<longleftrightarrow> getLastSlipTime timeFails st = None)))
   \<and> undoInvariant (loadEvents (getEvents True st) (getLastSlipTime True st) s)
   \<and> (lastSlipTimeItem st \<noteq> None \<longrightarrow>
        \<not> undoInvariant (loadEvents (getEvents True st) (getLastSlipTime False st) s))"
  by (auto simp: undoInvariant_def addSlip_def deleteSlip_def undoLastSlip_def
      clearAllEvents_def loadEvents_def getEvents_def getLastSlipTime_def Let_def
      split: option.splits)

theorem undoInvariant_store_actions_witness:
  "undoInvariant (fst oneSlip)
   \<and> lastSlipId (fst oneSlip) = Some ''m5x1abc''
   \<and> undoInvariant (addSlip 1737029400000 ''m5x2def'' (fst oneSlip))
   \<and> undoInvariant (deleteSlip ''m5x1abc'' (fst oneSlip))
   \<and> undoInvariant (snd (undoLastSlip 1737028801000 (fst oneSlip)))
   \<and> undoInvariant (clearAllEvents (fst oneSlip))
   \<and> undoInvariant (loadEvents (Inl ()) None (fst oneSlip))
   \<and> getEvents False (snd oneSlip) = Inr (events (fst oneSlip))
   \<and> getLastSlipTime False (snd oneSlip) = Some (Num 1737028800000)
   \<and> undoInvariant
        (loadEvents (getEvents False (snd oneSlip)) (getLastSlipTime False (snd oneSlip))
           (fst oneSlip))
   \<and> undoInvariant
        (loadEvents (getEvents True (snd oneSlip)) (getLastSlipTime True (snd oneSlip))
           (fst oneSlip))
   \<and> lastSlipTimeItem (snd oneSlip) \<noteq> None
   \<and> \<not> undoInvariant
        (loadEvents (getEvents True (snd oneSlip)) (getLastSlipTime False (snd oneSlip))
           (fst oneSlip))"
proof -
  have a: "undoInvariant (fst oneSlip)"
    by (simp add: undoInvariant_def oneSlip_store)
  have b: "getEvents False (snd oneSlip) = Inr (events (fst oneSlip))"
    "getLastSlipTime False (snd oneSlip) = Some (Num 1737028800000)"
    "lastSlipTimeItem (snd oneSlip) \<noteq> None"
    by (simp_all add: getEvents_def getLastSlipTime_def oneSlip_store)
  have c: "events (fst oneSlip) \<noteq> []"
    using oneSlip_store(1) by auto
  note t = undoInvariant_store_actions[where s = "fst oneSlip" and now_ms = 1737029400000
      and newId = "''m5x2def''" and i = "''m5x1abc''" and storedTime = None
      and st = "snd oneSlip" and timeFails = False and eventsFail = False
      and evs = "events (fst oneSlip)"]
  from t a have 1: "undoInvariant (addSlip 1737029400000 ''m5x2def'' (fst oneSlip))"
    "undoInvariant (deleteSlip ''m5x1abc'' (fst oneSlip))"
    "undoInvariant (clearAllEvents (fst oneSlip))"
    "undoInvariant (loadEvents (Inl ()) None (fst oneSlip))"
    by blast+
  from undoInvariant_store_actions[where s = "fst oneSlip" and now_ms = 1737028801000] a
  have 2: "undoInvariant (snd (undoLastSlip 1737028801000 (fst oneSlip)))"
    by blast
  from t b(1,2) c
  have 3: "undoInvariant
        (loadEvents (getEvents False (snd oneSlip)) (getLastSlipTime False (snd oneSlip))
           (fst oneSlip))"
    by simp
  from t b(3)
  have 4: "undoInvariant
        (loadEvents (getEvents True (snd oneSlip)) (getLastSlipTime True (snd oneSlip))
           (fst oneSlip))"
    "\<not> undoInvariant
        (loadEvents (getEvents True (snd oneSlip)) (getLastSlipTime False (snd oneSlip))
           (fst oneSlip))"
    by blast+
  from a 1 2 3 4 b oneSlip_store(2) show ?thesis
    by blast
qed

text \<open>
  The claim as first stated fails for \<open>loadEvents\<close>: after a slip and \<open>clearAllEvents\<close>
  the stored time of the last slip is still there, and loading the empty list of events
  with it leaves \<open>lastSlipTime\<close> present and \<open>lastSlipId\<close> absent.
\<close>

theorem loadEvents_breaks_undoInvariant:
  "undoInvariant (clearAllEvents (addSlip 1737028800000 ''m5x1abc'' initialStore))
   \<and> \<not> undoInvariant
        (loadEvents (Inr []) (Some (Num 1737028800000))
           (clearAllEvents (addSlip 1737028800000 ''m5x1abc'' initialStore)))"
  by (simp add: undoInvariant_def loadEvents_def clearAllEvents_def addSlip_def initialStore_def)



section \<open>Decimal strings\<close>

lemma digit_char_simps:
  "digit_char 0 = CHR ''0''" "digit_char 1 = CHR ''1''" "digit_char 2 = CHR ''2''"
  "digit_char 3 = CHR ''3''" "digit_char 4 = CHR ''4''" "digit_char 5 = CHR ''5''"
  "digit_char 6 = CHR ''6''" "digit_char 7 = CHR ''7''" "digit_char 8 = CHR ''8''"
  "digit_char 9 = CHR ''9''"
  by code_simp+

lemma of_char_digit_char: "n < 10 \<Longrightarrow> (of_char (digit_char n) :: nat) = 48 + n"
  by (simp add: digit_char_def)

lemma digit_char_inj:
  assumes "m < 10" "n < 10" "digit_char m = digit_char n"
  shows "m = n"
proof -
  have "(of_char (digit_char m) :: nat) = of_char (digit_char n)"
    by (simp only: assms(3))
  then have "48 + m = 48 + n"
    by (simp only: of_char_digit_char[OF assms(1)] of_char_digit_char[OF assms(2)])
  then show ?thesis by simp
qed

lemma div_mod_less_iff:
  fixes a b :: nat
  shows "a < b \<longleftrightarrow> a div 10 < b div 10 \<or> (a div 10 = b div 10 \<and> a mod 10 < b mod 10)"
proof -
  define qa ra qb rb where "qa = a div 10" and "ra = a mod 10" and "qb = b div 10"
    and "rb = b mod 10"
  have "a = 10 * qa + ra" "b = 10 * qb + rb" "ra < 10" "rb < 10"
    by (simp_all add: qa_def ra_def qb_def rb_def)
  then have "a < b \<longleftrightarrow> qa < qb \<or> (qa = qb \<and> ra < rb)"
    by linarith
  then show ?thesis
    by (simp only: qa_def ra_def qb_def rb_def)
qed

lemma str_less_irrefl: "\<not> str_less s s"
  by (induction s) simp_all

lemma str_less_append:
  "length a = length b \<Longrightarrow>
     str_less (a @ x) (b @ y) \<longleftrightarrow> str_less a b \<or> (a = b \<and> str_less x y)"
proof (induction a b rule: list_induct2)
  case Nil
  then show ?case by simp
next
  case (Cons c a d b)
  then show ?case by auto
qed

lemma show_nat_small: "n < 10 \<Longrightarrow> show_nat n = [digit_char n]"
  by (subst show_nat.simps) simp

lemma show_nat_big:
  "10 \<le> n \<Longrightarrow> show_nat n = show_nat (n div 10) @ [digit_char (n mod 10)]"
  by (subst show_nat.simps) simp

lemma length_show_nat_pos: "0 < length (show_nat n)"
  by (cases "n < 10") (simp_all add: show_nat_small show_nat_big)

lemma length_show_nat_one: "length (show_nat n) = 1 \<longleftrightarrow> n < 10"
  using length_show_nat_pos[of "n div 10"]
  by (cases "n < 10") (simp_all add: show_nat_small show_nat_big)

lemma show_nat_two:
  assumes "10 \<le> n" "n < 100"
  shows "show_nat n = [digit_char (n div 10), digit_char (n mod 10)]"
proof -
  have "n div 10 < 10" using assms(2) by simp
  then show ?thesis
    using assms(1) by (simp add: show_nat_big show_nat_small)
qed

lemma show_nat_less:
  "length (show_nat a) = length (show_nat b) \<Longrightarrow>
     (str_less (show_nat a) (show_nat b) \<longleftrightarrow> a < b) \<and> (show_nat a = show_nat b \<longleftrightarrow> a = b)"
proof (induction a arbitrary: b rule: show_nat.induct)
  case (1 a)
  show ?case
  proof (cases "a < 10")
    case True
    then have "length (show_nat b) = 1"
      using 1(2) by (simp add: show_nat_small)
    then have b: "b < 10"
      using length_show_nat_one[of b] by simp
    show ?thesis
      using True b digit_char_inj[of a b]
      by (auto simp: show_nat_small of_char_digit_char)
  next
    case False
    then have a: "10 \<le> a" by simp
    have "length (show_nat b) \<noteq> 1"
      using 1(2) a length_show_nat_one[of a] by simp
    then have b: "10 \<le> b"
      using length_show_nat_one[of b] by simp
    have len: "length (show_nat (a div 10)) = length (show_nat (b div 10))"
      using 1(2) a b by (simp add: show_nat_big)
    note ih = 1(1)[OF False len]
    have ra: "a mod 10 < 10" and rb: "b mod 10 < 10" by simp_all
    have last: "str_less [digit_char (a mod 10)] [digit_char (b mod 10)] \<longleftrightarrow> a mod 10 < b mod 10"
      by (simp add: of_char_digit_char[OF ra] of_char_digit_char[OF rb])
    have inj: "digit_char (a mod 10) = digit_char (b mod 10) \<longleftrightarrow> a mod 10 = b mod 10"
      using digit_char_inj[OF ra rb] by auto
    have "str_less (show_nat a) (show_nat b) \<longleftrightarrow>
        a div 10 < b div 10 \<or> (a div 10 = b div 10 \<and> a mod 10 < b mod 10)"
      using ih last by (simp only: show_nat_big[OF a] show_nat_big[OF b] str_less_append[OF len])
    moreover have "show_nat a = show_nat b \<longleftrightarrow> a div 10 = b div 10 \<and> a mod 10 = b mod 10"
      using ih inj len by (simp add: show_nat_big[OF a] show_nat_big[OF b])
    moreover have "a = b \<longleftrightarrow> a div 10 = b div 10 \<and> a mod 10 = b mod 10"
      by (metis div_mult_mod_eq)
    ultimately show ?thesis
      using div_mod_less_iff[of a b] by blast
  qed
qed

text \<open>Two digits, zero-padded.\<close>

lemma pad2:
  assumes "0 \<le> i" "i < 100"
  shows "padStart 2 (CHR ''0'') (toString i)
    = [digit_char (nat i div 10), digit_char (nat i mod 10)]"
proof (cases "nat i < 10")
  case True
  then show ?thesis
    using assms by (simp add: padStart_def toString_def show_nat_small digit_char_simps)
next
  case False
  then have "10 \<le> nat i" "nat i < 100" using assms by simp_all
  from show_nat_two[OF this] show ?thesis
    using assms by (simp add: padStart_def toString_def)
qed

lemma two_digits_less:
  assumes "a < 100" "b < 100"
  shows "str_less [digit_char (a div 10), digit_char (a mod 10)]
           [digit_char (b div 10), digit_char (b mod 10)] \<longleftrightarrow> a < (b::nat)"
    and "[digit_char (a div 10), digit_char (a mod 10)]
           = [digit_char (b div 10), digit_char (b mod 10)] \<longleftrightarrow> a = b"
proof -
  have q: "a div 10 < 10" "b div 10 < 10" and r: "a mod 10 < 10" "b mod 10 < 10"
    using assms by simp_all
  have iq: "digit_char (a div 10) = digit_char (b div 10) \<longleftrightarrow> a div 10 = b div 10"
    using digit_char_inj[OF q] by auto
  have ir: "digit_char (a mod 10) = digit_char (b mod 10) \<longleftrightarrow> a mod 10 = b mod 10"
    using digit_char_inj[OF r] by auto
  show "str_less [digit_char (a div 10), digit_char (a mod 10)]
           [digit_char (b div 10), digit_char (b mod 10)] \<longleftrightarrow> a < b"
    using div_mod_less_iff[of a b]
    by (simp add: of_char_digit_char q r iq)
  have "a = b \<longleftrightarrow> a div 10 = b div 10 \<and> a mod 10 = b mod 10"
    by (metis div_mult_mod_eq)
  then show "[digit_char (a div 10), digit_char (a mod 10)]
           = [digit_char (b div 10), digit_char (b mod 10)] \<longleftrightarrow> a = b"
    by (simp add: iq ir)
qed


section \<open>The calendar\<close>

lemma year_down_le: "DayFromYear (year_down y d) \<le> d"
proof (induction y d rule: year_down.induct)
  case (1 y d)
  then show ?case
    by (subst year_down.simps) simp
qed

lemma year_up_bounds:
  "DayFromYear y \<le> d \<Longrightarrow>
     DayFromYear (year_up y d) \<le> d \<and> d < DayFromYear (year_up y d + 1)"
proof (induction y d rule: year_up.induct)
  case (1 y d)
  show ?case
  proof (cases "DayFromYear (y + 1) \<le> d")
    case True
    then have "year_up y d = year_up (y + 1) d"
      by (subst year_up.simps) simp
    with 1 True show ?thesis by simp
  next
    case False
    then have "year_up y d = y"
      by (subst year_up.simps) simp
    with 1 False show ?thesis by simp
  qed
qed

lemma YearFromDay_bounds:
  "DayFromYear (YearFromDay d) \<le> d" "d < DayFromYear (YearFromDay d + 1)"
  using year_up_bounds[OF year_down_le, of "1970 + d div 365" d]
  by (simp_all add: YearFromDay_def)

lemma DayFromYear_mono_nat: "DayFromYear y \<le> DayFromYear (y + int k)"
proof (induction k)
  case 0
  then show ?case by simp
next
  case (Suc k)
  have "y + int (Suc k) = y + int k + 1"
    by simp
  then have "DayFromYear (y + int (Suc k)) = DayFromYear (y + int k) + DaysInYear (y + int k)"
    by (simp only: DayFromYear_succ)
  then show ?case
    using Suc DaysInYear_cases[of "y + int k"] by linarith
qed

lemma DayFromYear_mono: "y \<le> y' \<Longrightarrow> DayFromYear y \<le> DayFromYear y'"
  using DayFromYear_mono_nat[of y "nat (y' - y)"] by simp

lemma YearFromDay_mono:
  assumes "d \<le> d'"
  shows "YearFromDay d \<le> YearFromDay d'"
proof (rule ccontr)
  assume "\<not> YearFromDay d \<le> YearFromDay d'"
  then have "YearFromDay d' + 1 \<le> YearFromDay d" by simp
  from DayFromYear_mono[OF this] show False
    using assms YearFromDay_bounds(1)[of d] YearFromDay_bounds(2)[of d'] by simp
qed

definition monthStart :: "int \<Rightarrow> int \<Rightarrow> int" where
  "monthStart m l =
     (if m = 0 then 0 else if m = 1 then 31 else if m = 2 then 59 + l
      else if m = 3 then 90 + l else if m = 4 then 120 + l else if m = 5 then 151 + l
      else if m = 6 then 181 + l else if m = 7 then 212 + l else if m = 8 then 243 + l
      else if m = 9 then 273 + l else if m = 10 then 304 + l else 334 + l)"

lemma InLeapYear_cases: "InLeapYear d = 0 \<or> InLeapYear d = 1"
  by (simp add: InLeapYear_def)

lemma DaysInYear_InLeapYear: "DaysInYear (YearFromDay d) = 365 + InLeapYear d"
  using DaysInYear_cases[of "YearFromDay d"] by (auto simp: InLeapYear_def)

lemma DayWithinYear_range: "0 \<le> DayWithinYear d" "DayWithinYear d < 365 + InLeapYear d"
  using YearFromDay_bounds[of d] DayFromYear_succ[of "YearFromDay d"]
    DaysInYear_InLeapYear[of d]
  by (simp_all add: DayWithinYear_def)

lemma MonthFromDay_range: "0 \<le> MonthFromDay d" "MonthFromDay d \<le> 11"
  by (simp_all add: MonthFromDay_def Let_def)

lemma DateFromDay_eq:
  "DateFromDay d = DayWithinYear d - monthStart (MonthFromDay d) (InLeapYear d) + 1"
  by (simp add: DateFromDay_def monthStart_def Let_def)

lemma monthStart_le: "monthStart (MonthFromDay d) (InLeapYear d) \<le> DayWithinYear d"
  using DayWithinYear_range(1)[of d] InLeapYear_cases[of d]
  by (auto simp: monthStart_def MonthFromDay_def Let_def)

lemma monthStart_gt: "DayWithinYear d < monthStart (MonthFromDay d) (InLeapYear d) + 31"
  using DayWithinYear_range(2)[of d] InLeapYear_cases[of d]
  by (auto simp: monthStart_def MonthFromDay_def Let_def)

lemma DateFromDay_range: "1 \<le> DateFromDay d" "DateFromDay d \<le> 31"
  using monthStart_le[of d] monthStart_gt[of d] by (simp_all add: DateFromDay_eq)

lemma MonthFromDay_mono:
  assumes "YearFromDay d = YearFromDay d'" "d \<le> d'"
  shows "MonthFromDay d \<le> MonthFromDay d'"
proof -
  have l: "InLeapYear d = InLeapYear d'"
    using assms(1) by (simp add: InLeapYear_def)
  have w: "DayWithinYear d \<le> DayWithinYear d'"
    using assms by (simp add: DayWithinYear_def)
  show ?thesis
    using w InLeapYear_cases[of d'] unfolding MonthFromDay_def Let_def l
    by (simp split: if_splits)
qed

text \<open>Days are ordered as their (year, month, day of the month) triples are.\<close>

lemma Day_less_iff:
  "d < d' \<longleftrightarrow>
     YearFromDay d < YearFromDay d'
     \<or> (YearFromDay d = YearFromDay d'
         \<and> (MonthFromDay d < MonthFromDay d'
             \<or> (MonthFromDay d = MonthFromDay d' \<and> DateFromDay d < DateFromDay d')))"
proof (cases "YearFromDay d = YearFromDay d'")
  case False
  have "d < d' \<longleftrightarrow> YearFromDay d < YearFromDay d'"
  proof
    assume "d < d'"
    then show "YearFromDay d < YearFromDay d'"
      using YearFromDay_mono[of d d'] False by simp
  next
    assume "YearFromDay d < YearFromDay d'"
    then have "\<not> YearFromDay d' \<le> YearFromDay d" by simp
    then show "d < d'"
      using YearFromDay_mono[of d' d] by linarith
  qed
  with False show ?thesis by simp
next
  case y: True
  then have l: "InLeapYear d = InLeapYear d'"
    by (simp add: InLeapYear_def)
  have w: "d < d' \<longleftrightarrow> DayWithinYear d < DayWithinYear d'"
    using y by (simp add: DayWithinYear_def)
  show ?thesis
  proof (cases "MonthFromDay d = MonthFromDay d'")
    case True
    have "DateFromDay d < DateFromDay d' \<longleftrightarrow> DayWithinYear d < DayWithinYear d'"
      unfolding DateFromDay_eq True l by linarith
    then show ?thesis
      using y w True by simp
  next
    case False
    have "d < d' \<longleftrightarrow> MonthFromDay d < MonthFromDay d'"
    proof
      assume "d < d'"
      then show "MonthFromDay d < MonthFromDay d'"
        using MonthFromDay_mono[OF y, of ] False by simp
    next
      assume "MonthFromDay d < MonthFromDay d'"
      then have "\<not> MonthFromDay d' \<le> MonthFromDay d" by simp
      then show "d < d'"
        using MonthFromDay_mono[OF y[symmetric]] by linarith
    qed
    with y False show ?thesis by simp
  qed
qed

lemma Day_eq_iff:
  "d = d' \<longleftrightarrow>
     YearFromDay d = YearFromDay d' \<and> MonthFromDay d = MonthFromDay d'
     \<and> DateFromDay d = DateFromDay d'"
proof
  assume "d = d'"
  then show "YearFromDay d = YearFromDay d' \<and> MonthFromDay d = MonthFromDay d'
     \<and> DateFromDay d = DateFromDay d'"
    by simp
next
  assume a: "YearFromDay d = YearFromDay d' \<and> MonthFromDay d = MonthFromDay d'
     \<and> DateFromDay d = DateFromDay d'"
  have "\<not> d < d'"
    by (subst Day_less_iff) (simp add: a)
  moreover have "\<not> d' < d"
    by (subst Day_less_iff) (simp add: a)
  ultimately show "d = d'" by linarith
qed


section \<open>Date strings\<close>

lemma show_nat_digits: "c \<in> set (show_nat n) \<Longrightarrow> \<exists>k<10. c = digit_char k"
proof (induction n rule: show_nat.induct)
  case (1 n)
  show ?case
  proof (cases "n < 10")
    case True
    with 1(2) show ?thesis by (auto simp: show_nat_small)
  next
    case False
    then have "c \<in> set (show_nat (n div 10)) \<or> c = digit_char (n mod 10)"
      using 1(2) by (auto simp: show_nat_big)
    then show ?thesis
    proof
      assume "c \<in> set (show_nat (n div 10))"
      from 1(1)[OF False this] show ?thesis .
    next
      assume "c = digit_char (n mod 10)"
      moreover have "n mod 10 < 10" by simp
      ultimately show ?thesis by blast
    qed
  qed
qed

lemma show_nat_of_char: "c \<in> set (show_nat n) \<Longrightarrow> 48 \<le> (of_char c :: nat) \<and> (of_char c :: nat) \<le> 57"
  using show_nat_digits[of c n] by (auto simp: of_char_digit_char)

lemma show_nat_not_minus: "show_nat n \<noteq> CHR ''-'' # s"
proof
  assume "show_nat n = CHR ''-'' # s"
  then have "CHR ''-'' \<in> set (show_nat n)" by simp
  from show_nat_of_char[OF this] show False by simp
qed

lemma show_nat_inj: "show_nat a = show_nat b \<longleftrightarrow> a = b"
  using show_nat_less[of a b] by auto

lemma toString_inj: "toString i = toString j \<longleftrightarrow> i = j"
proof (cases "i < 0"; cases "j < 0")
  assume "i < 0" "j < 0"
  then show ?thesis by (simp add: toString_def show_nat_inj eq_nat_nat_iff)
next
  assume "i < 0" "\<not> j < 0"
  then show ?thesis
    using show_nat_not_minus[of "nat j" "show_nat (nat (- i))"] by (auto simp: toString_def)
next
  assume "\<not> i < 0" "j < 0"
  then show ?thesis
    using show_nat_not_minus[of "nat i" "show_nat (nat (- j))"] by (auto simp: toString_def)
next
  assume "\<not> i < 0" "\<not> j < 0"
  then show ?thesis by (simp add: toString_def show_nat_inj eq_nat_nat_iff)
qed

definition monthDay :: "env \<Rightarrow> int \<Rightarrow> string" where
  "monthDay e t =
     (let m = nat (getMonth e t + 1); d = nat (getDate e t)
      in [CHR ''-'', digit_char (m div 10), digit_char (m mod 10),
          CHR ''-'', digit_char (d div 10), digit_char (d mod 10)])"

lemma formatDateString_Some:
  "formatDateString e (Some t) = toString (getFullYear e t) @ monthDay e t"
proof -
  have m: "0 \<le> getMonth e t + 1" "getMonth e t + 1 < 100"
    using MonthFromDay_range[of "Day (LocalTime e t)"] by (simp_all add: getMonth_def)
  have d: "0 \<le> getDate e t" "getDate e t < 100"
    using DateFromDay_range[of "Day (LocalTime e t)"] by (simp_all add: getDate_def)
  show ?thesis
    by (simp add: formatDateString_def Let_def pad2[OF m] pad2[OF d] monthDay_def)
qed

lemma length_monthDay: "length (monthDay e t) = 6"
  by (simp add: monthDay_def Let_def)

lemma monthDay_cmp:
  "str_less (monthDay e t) (monthDay e t') \<longleftrightarrow>
     getMonth e t < getMonth e t' \<or> (getMonth e t = getMonth e t' \<and> getDate e t < getDate e t')"
  "monthDay e t = monthDay e t' \<longleftrightarrow> getMonth e t = getMonth e t' \<and> getDate e t = getDate e t'"
proof -
  define m d m' d' where "m = nat (getMonth e t + 1)" and "d = nat (getDate e t)"
    and "m' = nat (getMonth e t' + 1)" and "d' = nat (getDate e t')"
  have r: "m < 100" "d < 100" "m' < 100" "d' < 100"
    using MonthFromDay_range[of "Day (LocalTime e t)"] DateFromDay_range[of "Day (LocalTime e t)"]
      MonthFromDay_range[of "Day (LocalTime e t')"] DateFromDay_range[of "Day (LocalTime e t')"]
    by (simp_all add: m_def d_def m'_def d'_def getMonth_def getDate_def)
  have im: "int m = getMonth e t + 1" "int d = getDate e t"
    "int m' = getMonth e t' + 1" "int d' = getDate e t'"
    using MonthFromDay_range[of "Day (LocalTime e t)"] DateFromDay_range[of "Day (LocalTime e t)"]
      MonthFromDay_range[of "Day (LocalTime e t')"] DateFromDay_range[of "Day (LocalTime e t')"]
    by (simp_all add: m_def d_def m'_def d'_def getMonth_def getDate_def)
  have "m < m' \<longleftrightarrow> int m < int m'" "m = m' \<longleftrightarrow> int m = int m'"
    "d < d' \<longleftrightarrow> int d < int d'" "d = d' \<longleftrightarrow> int d = int d'"
    by simp_all
  then have i: "m < m' \<longleftrightarrow> getMonth e t < getMonth e t'" "m = m' \<longleftrightarrow> getMonth e t = getMonth e t'"
    "d < d' \<longleftrightarrow> getDate e t < getDate e t'" "d = d' \<longleftrightarrow> getDate e t = getDate e t'"
    by (simp_all only: im add_less_cancel_right add_right_cancel)
  have md: "monthDay e t = CHR ''-'' # [digit_char (m div 10), digit_char (m mod 10)]
      @ CHR ''-'' # [digit_char (d div 10), digit_char (d mod 10)]"
    "monthDay e t' = CHR ''-'' # [digit_char (m' div 10), digit_char (m' mod 10)]
      @ CHR ''-'' # [digit_char (d' div 10), digit_char (d' mod 10)]"
    by (simp_all add: monthDay_def Let_def m_def d_def m'_def d'_def)
  have l: "length [digit_char (m div 10), digit_char (m mod 10)]
      = length [digit_char (m' div 10), digit_char (m' mod 10)]"
    by simp
  have "str_less (monthDay e t) (monthDay e t') \<longleftrightarrow> m < m' \<or> (m = m' \<and> d < d')"
    unfolding md str_less.simps str_less_append[OF l]
    using two_digits_less[OF r(1) r(3)] two_digits_less[OF r(2) r(4)] by simp
  then show "str_less (monthDay e t) (monthDay e t') \<longleftrightarrow>
     getMonth e t < getMonth e t' \<or> (getMonth e t = getMonth e t' \<and> getDate e t < getDate e t')"
    by (simp only: i)
  have "monthDay e t = monthDay e t' \<longleftrightarrow> m = m' \<and> d = d'"
    unfolding md using two_digits_less(2)[OF r(1) r(3)] two_digits_less(2)[OF r(2) r(4)] by auto
  then show "monthDay e t = monthDay e t' \<longleftrightarrow> getMonth e t = getMonth e t' \<and> getDate e t = getDate e t'"
    by (simp only: i)
qed

text \<open>Two valid dates have the same date string exactly when they fall on the same local day.\<close>

lemma formatDateString_eq_iff:
  "formatDateString e (Some t) = formatDateString e (Some t') \<longleftrightarrow>
     Day (LocalTime e t) = Day (LocalTime e t')"
proof -
  have "formatDateString e (Some t) = formatDateString e (Some t') \<longleftrightarrow>
      toString (getFullYear e t) = toString (getFullYear e t') \<and> monthDay e t = monthDay e t'"
    unfolding formatDateString_Some
    by (rule append_eq_append_conv) (simp add: length_monthDay)
  then show ?thesis
    unfolding toString_inj monthDay_cmp(2) Day_eq_iff[of "Day (LocalTime e t)"]
    by (simp add: getFullYear_def getMonth_def getDate_def)
qed


text \<open>
  Two years of the same era: neither is negative, and both are written with the same
  number of digits.
\<close>

definition sameEra :: "int \<Rightarrow> int \<Rightarrow> bool" where
  "sameEra y y' = (0 \<le> y \<and> 0 \<le> y' \<and> length (toString y) = length (toString y'))"

text \<open>
  Claim C8, as amended. For two instants whose local years are not negative and have the
  same number of digits (two years from 1000 to 9999, for one), the date strings compare
  as the local days of the instants do: the one string is below the other exactly when
  the one day is before the other, and the strings are equal exactly when the days are.
\<close>

theorem formatDateString_order:
  assumes "sameEra (getFullYear e t) (getFullYear e t')"
  shows "(str_less (formatDateString e (Some t)) (formatDateString e (Some t'))
           \<longleftrightarrow> Day (LocalTime e t) < Day (LocalTime e t'))
       \<and> (formatDateString e (Some t) = formatDateString e (Some t')
           \<longleftrightarrow> Day (LocalTime e t) = Day (LocalTime e t'))"
proof -
  define y y' where "y = getFullYear e t" and "y' = getFullYear e t'"
  have nn: "0 \<le> y" "0 \<le> y'" and len: "length (toString y) = length (toString y')"
    using assms by (simp_all add: sameEra_def y_def y'_def)
  have ts: "toString y = show_nat (nat y)" "toString y' = show_nat (nat y')"
    using nn by (simp_all add: toString_def)
  have "str_less (toString y) (toString y') \<longleftrightarrow> nat y < nat y'"
    using show_nat_less[of "nat y" "nat y'"] len by (simp add: ts)
  then have ylt: "str_less (toString y) (toString y') \<longleftrightarrow> y < y'"
    using nn by auto
  have "str_less (formatDateString e (Some t)) (formatDateString e (Some t')) \<longleftrightarrow>
      y < y' \<or> (y = y' \<and> str_less (monthDay e t) (monthDay e t'))"
    unfolding formatDateString_Some y_def[symmetric] y'_def[symmetric] str_less_append[OF len]
    by (simp add: ylt toString_inj)
  then have "str_less (formatDateString e (Some t)) (formatDateString e (Some t'))
      \<longleftrightarrow> Day (LocalTime e t) < Day (LocalTime e t')"
    unfolding monthDay_cmp(1) Day_less_iff[of "Day (LocalTime e t)"]
    by (simp add: y_def y'_def getFullYear_def getMonth_def getDate_def)
  then show ?thesis
    by (simp add: formatDateString_eq_iff)
qed

theorem formatDateString_order_witness:
  "sameEra (getFullYear utcHost 1736848800000) (getFullYear utcHost 1737028800000)
   \<and> Day (LocalTime utcHost 1736848800000) < Day (LocalTime utcHost 1737028800000)
   \<and> str_less (formatDateString utcHost (Some 1736848800000))
         (formatDateString utcHost (Some 1737028800000))"
proof -
  have a: "sameEra (getFullYear utcHost 1736848800000) (getFullYear utcHost 1737028800000)"
    by code_simp
  have b: "Day (LocalTime utcHost 1736848800000) < Day (LocalTime utcHost 1737028800000)"
    by code_simp
  from formatDateString_order[OF a] a b show ?thesis
    by blast
qed

text \<open>
  The claim as first stated fails where the years differ in their number of digits: the
  year is written without padding, so noon of 31 December 999 gets the string
  \<open>999-12-31\<close>, which is not below the string \<open>1000-01-01\<close> of the next day but above it.
\<close>

theorem formatDateString_order_counterexample:
  "parseDate utcHost ''0999-12-31T12:00:00.000Z'' = Some (- 30610267200000)
   \<and> parseDate utcHost ''1000-01-01T12:00:00.000Z'' = Some (- 30610180800000)
   \<and> getFullYear utcHost (- 30610267200000) = 999
   \<and> getFullYear utcHost (- 30610180800000) = 1000
   \<and> Day (LocalTime utcHost (- 30610267200000)) < Day (LocalTime utcHost (- 30610180800000))
   \<and> getDateFromTimestamp utcHost ''0999-12-31T12:00:00.000Z'' = ''999-12-31''
   \<and> getDateFromTimestamp utcHost ''1000-01-01T12:00:00.000Z'' = ''1000-01-01''
   \<and> \<not> str_less (getDateFromTimestamp utcHost ''0999-12-31T12:00:00.000Z'')
           (getDateFromTimestamp utcHost ''1000-01-01T12:00:00.000Z'')
   \<and> str_less (getDateFromTimestamp utcHost ''1000-01-01T12:00:00.000Z'')
         (getDateFromTimestamp utcHost ''0999-12-31T12:00:00.000Z'')"
  by code_simp

section \<open>The days of a range\<close>

lemma setDate_shift: "setDate e t (getDate e t - i) = t - i * msPerDay"
  by (simp add: setDate_def)

lemma Day_shift: "Day (LocalTime e (t - i * msPerDay)) = Day (LocalTime e t) - i"
proof -
  have "msPerDay \<noteq> 0"
    by (simp add: msPerDay_def)
  from div_mult_self1[OF this, of "t + tzOffset e" "- i"]
  have "(t + tzOffset e + - i * msPerDay) div msPerDay = - i + (t + tzOffset e) div msPerDay" .
  moreover have "t - i * msPerDay + tzOffset e = t + tzOffset e + - i * msPerDay"
    by simp
  ultimately show ?thesis
    by (simp only: Day_def LocalTime_def)
qed

lemma getDaysAgoDateString_eq_iff:
  "getDaysAgoDateString e i = getDaysAgoDateString e j \<longleftrightarrow> i = j"
  by (simp add: getDaysAgoDateString_def formatDateString_eq_iff setDate_shift Day_shift)

lemma getDaysAgoDateString_eq_format:
  "getDaysAgoDateString e i = formatDateString e (Some t)
     \<longleftrightarrow> Day (LocalTime e (now e)) - i = Day (LocalTime e t)"
  by (simp add: getDaysAgoDateString_def formatDateString_eq_iff setDate_shift Day_shift)

lemma getLastNDays_eq:
  "getLastNDays e n = map (\<lambda>i. getDaysAgoDateString e (int i)) (rev [0..<nat n])"
  by (simp add: getLastNDays_def getDaysAgoDateString_def)

lemma length_getLastNDays: "length (getLastNDays e n) = nat n"
  by (simp add: getLastNDays_def)

lemma distinct_getLastNDays: "distinct (getLastNDays e n)"
  unfolding getLastNDays_eq
  by (simp add: distinct_map inj_on_def getDaysAgoDateString_eq_iff)

lemma formatDateString_not_NaN: "formatDateString e (Some t) \<noteq> ''NaN-NaN-NaN''"
proof
  assume a: "formatDateString e (Some t) = ''NaN-NaN-NaN''"
  have "length (formatDateString e (Some t)) = length (toString (getFullYear e t)) + 6"
    by (simp add: formatDateString_Some length_monthDay)
  then have l: "length (toString (getFullYear e t)) = 5"
    by (simp add: a)
  have "formatDateString e (Some t) = toString (getFullYear e t) @ monthDay e t"
    by (rule formatDateString_Some)
  then have "take 5 ''NaN-NaN-NaN'' = toString (getFullYear e t)"
    using l by (simp add: a[symmetric])
  then have ts: "toString (getFullYear e t) = ''NaN-N''"
    by simp
  show False
  proof (cases "getFullYear e t < 0")
    case True
    with ts show ?thesis by (simp add: toString_def)
  next
    case False
    with ts have "CHR ''N'' \<in> set (show_nat (nat (getFullYear e t)))"
      by (simp add: toString_def)
    from show_nat_of_char[OF this] show ?thesis by simp
  qed
qed

lemma NaN_not_in_range: "''NaN-NaN-NaN'' \<notin> set (getLastNDays e n)"
proof
  assume "''NaN-NaN-NaN'' \<in> set (getLastNDays e n)"
  then obtain t where "''NaN-NaN-NaN'' = formatDateString e (Some t)"
    by (auto simp: getLastNDays_def)
  then show False
    using formatDateString_not_NaN[of e t] by simp
qed



section \<open>The current streak\<close>

lemma currentStreakLoop_le:
  "daysAgo \<le> 365 \<Longrightarrow>
     currentStreakLoop e c limit cur daysAgo \<le> cur + (366 - daysAgo)"
proof (induction e c limit cur daysAgo rule: currentStreakLoop.induct)
  case (1 e c limit cur daysAgo)
  show ?case
  proof (cases "int (lookup0 c (getDaysAgoDateString e (int daysAgo))) \<le> limit")
    case False
    then show ?thesis
      by (subst currentStreakLoop.simps) (simp add: Let_def)
  next
    case under: True
    show ?thesis
    proof (cases "daysAgo + 1 > 365")
      case True
      with under 1(2) show ?thesis
        by (subst currentStreakLoop.simps) (simp add: Let_def)
    next
      case False
      then have "daysAgo + 1 \<le> 365" by simp
      from 1(1)[OF refl refl under False this]
      have "currentStreakLoop e c limit (cur + 1) (daysAgo + 1) \<le> cur + 1 + (366 - (daysAgo + 1))" .
      with under False show ?thesis
        by (subst currentStreakLoop.simps) (simp add: Let_def)
    qed
  qed
qed

lemma currentStreakLoop_all_under:
  "\<forall>k. int (lookup0 c k) \<le> limit \<Longrightarrow> daysAgo \<le> 365 \<Longrightarrow>
     currentStreakLoop e c limit cur daysAgo = cur + (366 - daysAgo)"
proof (induction e c limit cur daysAgo rule: currentStreakLoop.induct)
  case (1 e c limit cur daysAgo)
  have under: "int (lookup0 c (getDaysAgoDateString e (int daysAgo))) \<le> limit"
    using 1(2) by simp
  show ?case
  proof (cases "daysAgo + 1 > 365")
    case True
    with under 1(3) show ?thesis
      by (subst currentStreakLoop.simps) (simp add: Let_def)
  next
    case False
    then have "daysAgo + 1 \<le> 365" by simp
    from 1(1)[OF refl refl under False 1(2) this]
    have "currentStreakLoop e c limit (cur + 1) (daysAgo + 1) = cur + 1 + (366 - (daysAgo + 1))" .
    with under False show ?thesis
      by (subst currentStreakLoop.simps) (simp add: Let_def)
  qed
qed

lemma current_useStreak:
  "current (useStreak e evs limit) = currentStreakLoop e (countEvents e evs []) limit 0 0"
  by (simp add: useStreak_def Let_def split: list.splits)

lemma useStreak_no_events:
  "useStreak e [] limit =
     \<lparr>current = currentStreakLoop e [] limit 0 0, best = currentStreakLoop e [] limit 0 0\<rparr>"
  by (simp add: useStreak_def countEvents_def sort_str_def Let_def)

lemma lookup0_Nil: "lookup0 [] k = 0"
  by (simp add: lookup0_def)

text \<open>
  Claim C2, as amended. For every list of events and every limit the walk back from today
  looks at no more than 366 days, today and the 365 days before it, so the current
  streak never exceeds 366; it is 366 when no day is over the limit. With no events and a
  limit that is not negative, the current streak and the best streak are both 366, and
  with no events the best streak always equals the current one.
\<close>

theorem currentStreak_bound:
  "current (useStreak e evs limit) \<le> 366
   \<and> ((\<forall>k. int (lookup0 (countEvents e evs []) k) \<le> limit)
        \<longrightarrow> current (useStreak e evs limit) = 366)
   \<and> (0 \<le> limit \<longrightarrow> current (useStreak e [] limit) = 366 \<and> best (useStreak e [] limit) = 366)
   \<and> best (useStreak e [] limit) = current (useStreak e [] limit)"
proof (intro conjI impI)
  show "current (useStreak e evs limit) \<le> 366"
    using currentStreakLoop_le[of 0 e "countEvents e evs []" limit 0]
    by (simp add: current_useStreak)
  show "current (useStreak e evs limit) = 366"
    if "\<forall>k. int (lookup0 (countEvents e evs []) k) \<le> limit"
    using currentStreakLoop_all_under[OF that, of 0 e 0] by (simp add: current_useStreak)
  show "best (useStreak e [] limit) = current (useStreak e [] limit)"
    by (simp add: useStreak_no_events)
  assume "0 \<le> limit"
  then have "\<forall>k. int (lookup0 ([] :: (string \<times> nat) list) k) \<le> limit"
    by (simp add: lookup0_Nil)
  from currentStreakLoop_all_under[OF this, of 0 e 0]
  show "current (useStreak e [] limit) = 366" "best (useStreak e [] limit) = 366"
    by (simp_all add: useStreak_no_events)
qed

theorem currentStreak_bound_witness:
  "(0::int) \<le> 3
   \<and> (\<forall>k. int (lookup0 (countEvents utcHost [] []) k) \<le> 3)
   \<and> current (useStreak utcHost [] 3) = 366
   \<and> best (useStreak utcHost [] 3) = 366"
proof -
  have a: "\<forall>k. int (lookup0 (countEvents utcHost [] []) k) \<le> 3"
    by (simp add: countEvents_def lookup0_Nil)
  from currentStreak_bound[of utcHost "[]" 3] a show ?thesis
    by simp
qed

text \<open>
  The claim as first stated fails by one day: the walk stops once \<open>daysAgo\<close> has passed
  365, after the day 365 days ago has been counted, so with no events the streak is 366.
\<close>

theorem currentStreak_exceeds_365:
  "current (useStreak utcHost [] 3) = 366 \<and> \<not> current (useStreak utcHost [] 3) \<le> 365"
proof -
  have "\<forall>k. int (lookup0 ([] :: (string \<times> nat) list) k) \<le> 3"
    by (simp add: lookup0_Nil)
  from currentStreakLoop_all_under[OF this, of 0 utcHost 0]
  show ?thesis
    by (simp add: useStreak_no_events)
qed

section \<open>Counting into dictionaries\<close>

lemma map_of_assign: "map_of (assign k v obj) = (map_of obj)(k \<mapsto> v)"
  by (induction obj) (auto simp: fun_eq_iff)

lemma lookup0_assign: "lookup0 (assign k v obj) k' = (if k' = k then v else lookup0 obj k')"
  by (simp add: lookup0_def map_of_assign)

lemma lookup0_incr:
  "lookup0 (incr k obj) k' = (if k' = k then lookup0 obj k + 1 else lookup0 obj k')"
  by (simp add: incr_def lookup0_assign)

lemma lookup0_countEvents:
  "lookup0 (countEvents e evs obj) k
     = lookup0 obj k + length (filter (\<lambda>ev. getDateFromTimestamp e (timestamp ev) = k) evs)"
proof (induction evs arbitrary: obj)
  case Nil
  then show ?case by (simp add: countEvents_def)
next
  case (Cons ev evs)
  have "countEvents e (ev # evs) obj
      = countEvents e evs (incr (getDateFromTimestamp e (timestamp ev)) obj)"
    by (simp add: countEvents_def)
  then show ?case
    by (simp add: Cons.IH lookup0_incr)
qed

lemma lookup0_init:
  "lookup0 (fold (\<lambda>date obj. assign date 0 obj) dates obj) k
     = (if k \<in> set dates then 0 else lookup0 obj k)"
  by (induction dates arbitrary: obj) (simp_all add: lookup0_assign)

section \<open>The best and the worst day\<close>

text \<open>
  A day is minimal (maximal) in a list of day counts when no day of the list has a smaller
  (larger) count.
\<close>

definition isMinIn :: "DayCount list \<Rightarrow> DayCount \<Rightarrow> bool" where
  "isMinIn ds d = (\<forall>d' \<in> set ds. count d \<le> count d')"

definition isMaxIn :: "DayCount list \<Rightarrow> DayCount \<Rightarrow> bool" where
  "isMaxIn ds d = (\<forall>d' \<in> set ds. count d' \<le> count d)"

lemma isMinIn_Cons: "isMinIn (x # xs) d \<longleftrightarrow> count d \<le> count x \<and> isMinIn xs d"
  by (simp add: isMinIn_def)

lemma isMaxIn_Cons: "isMaxIn (x # xs) d \<longleftrightarrow> count x \<le> count d \<and> isMaxIn xs d"
  by (simp add: isMaxIn_def)

lemma isMinIn_le: "isMinIn xs d \<Longrightarrow> y \<in> set xs \<Longrightarrow> count d \<le> count y"
  by (simp add: isMinIn_def)

lemma isMaxIn_ge: "isMaxIn xs d \<Longrightarrow> y \<in> set xs \<Longrightarrow> count y \<le> count d"
  by (simp add: isMaxIn_def)

lemma fold_best_Some:
  "fst (fold bestWorstStep ds (Some b, w)) = find (isMinIn (b # ds)) (b # ds)"
proof (induction ds arbitrary: b w)
  case Nil
  then show ?case by (simp add: isMinIn_def)
next
  case (Cons x xs)
  define w' where "w' = snd (bestWorstStep x (Some b, w))"
  show ?case
  proof (cases "count x < count b")
    case True
    have step: "bestWorstStep x (Some b, w) = (Some x, w')"
      using True by (simp add: w'_def bestWorstStep_def Let_def)
    have l: "fst (fold bestWorstStep (x # xs) (Some b, w)) = find (isMinIn (x # xs)) (x # xs)"
      using Cons.IH[of x w'] by (simp add: step)
    have nb: "\<not> isMinIn (b # x # xs) b"
      using True by (simp add: isMinIn_Cons)
    have "isMinIn (b # x # xs) d = isMinIn (x # xs) d" for d
      using True by (auto simp: isMinIn_Cons)
    then have "find (isMinIn (b # x # xs)) (x # xs) = find (isMinIn (x # xs)) (x # xs)"
      by (intro find_cong refl)
    then have "find (isMinIn (b # x # xs)) (b # x # xs) = find (isMinIn (x # xs)) (x # xs)"
      using nb by simp
    with l show ?thesis by simp
  next
    case False
    have step: "bestWorstStep x (Some b, w) = (Some b, w')"
      using False by (simp add: w'_def bestWorstStep_def Let_def)
    have l: "fst (fold bestWorstStep (x # xs) (Some b, w)) = find (isMinIn (b # xs)) (b # xs)"
      using Cons.IH[of b w'] by (simp add: step)
    have "find (isMinIn (b # x # xs)) (b # x # xs) = find (isMinIn (b # xs)) (b # xs)"
    proof (cases "isMinIn xs b")
      case True
      then have "isMinIn (b # x # xs) b" "isMinIn (b # xs) b"
        using False by (simp_all add: isMinIn_Cons)
      then show ?thesis by simp
    next
      case nb: False
      then have n1: "\<not> isMinIn (b # x # xs) b" "\<not> isMinIn (b # xs) b"
        by (simp_all add: isMinIn_Cons)
      from nb obtain y where y: "y \<in> set xs" "count y < count b"
        by (auto simp: isMinIn_def not_le)
      have n2: "\<not> isMinIn (b # x # xs) x"
      proof
        assume "isMinIn (b # x # xs) x"
        then have "count x \<le> count y"
          using y(1) by (simp add: isMinIn_le)
        with y(2) False show False by simp
      qed
      have "isMinIn (b # x # xs) d = isMinIn (b # xs) d" for d
        using False by (auto simp: isMinIn_Cons)
      then have "find (isMinIn (b # x # xs)) xs = find (isMinIn (b # xs)) xs"
        by (intro find_cong refl)
      then show ?thesis
        using n1 n2 by simp
    qed
    with l show ?thesis by simp
  qed
qed


lemma fold_worst_Some:
  "snd (fold bestWorstStep ds (b, Some w)) = find (isMaxIn (w # ds)) (w # ds)"
proof (induction ds arbitrary: b w)
  case Nil
  then show ?case by (simp add: isMaxIn_def)
next
  case (Cons x xs)
  define b' where "b' = fst (bestWorstStep x (b, Some w))"
  show ?case
  proof (cases "count x > count w")
    case True
    have step: "bestWorstStep x (b, Some w) = (b', Some x)"
      using True by (simp add: b'_def bestWorstStep_def Let_def)
    have l: "snd (fold bestWorstStep (x # xs) (b, Some w)) = find (isMaxIn (x # xs)) (x # xs)"
      using Cons.IH[of b' x] by (simp add: step)
    have nb: "\<not> isMaxIn (w # x # xs) w"
      using True by (simp add: isMaxIn_Cons)
    have "isMaxIn (w # x # xs) d = isMaxIn (x # xs) d" for d
      using True by (auto simp: isMaxIn_Cons)
    then have "find (isMaxIn (w # x # xs)) (x # xs) = find (isMaxIn (x # xs)) (x # xs)"
      by (intro find_cong refl)
    then have "find (isMaxIn (w # x # xs)) (w # x # xs) = find (isMaxIn (x # xs)) (x # xs)"
      using nb by simp
    with l show ?thesis by simp
  next
    case False
    have step: "bestWorstStep x (b, Some w) = (b', Some w)"
      using False by (simp add: b'_def bestWorstStep_def Let_def)
    have l: "snd (fold bestWorstStep (x # xs) (b, Some w)) = find (isMaxIn (w # xs)) (w # xs)"
      using Cons.IH[of b' w] by (simp add: step)
    have "find (isMaxIn (w # x # xs)) (w # x # xs) = find (isMaxIn (w # xs)) (w # xs)"
    proof (cases "isMaxIn xs w")
      case True
      then have "isMaxIn (w # x # xs) w" "isMaxIn (w # xs) w"
        using False by (simp_all add: isMaxIn_Cons)
      then show ?thesis by simp
    next
      case nb: False
      then have n1: "\<not> isMaxIn (w # x # xs) w" "\<not> isMaxIn (w # xs) w"
        by (simp_all add: isMaxIn_Cons)
      from nb obtain y where y: "y \<in> set xs" "count w < count y"
        by (auto simp: isMaxIn_def not_le)
      have n2: "\<not> isMaxIn (w # x # xs) x"
      proof
        assume "isMaxIn (w # x # xs) x"
        then have "count y \<le> count x"
          using y(1) by (simp add: isMaxIn_ge)
        with y(2) False show False by simp
      qed
      have "isMaxIn (w # x # xs) d = isMaxIn (w # xs) d" for d
        using False by (auto simp: isMaxIn_Cons)
      then have "find (isMaxIn (w # x # xs)) xs = find (isMaxIn (w # xs)) xs"
        by (intro find_cong refl)
      then show ?thesis
        using n1 n2 by simp
    qed
    with l show ?thesis by simp
  qed
qed

lemma fold_bestWorstStep:
  "fold bestWorstStep ds (None, None) = (find (isMinIn ds) ds, find (isMaxIn ds) ds)"
proof (cases ds)
  case Nil
  then show ?thesis by simp
next
  case (Cons x xs)
  have "bestWorstStep x (None, None) = (Some x, Some x)"
    by (simp add: bestWorstStep_def)
  then have "fold bestWorstStep ds (None, None) = fold bestWorstStep xs (Some x, Some x)"
    by (simp add: Cons)
  then show ?thesis
    using fold_best_Some[of xs x "Some x"] fold_worst_Some[of xs "Some x" x]
    by (simp add: Cons prod_eq_iff)
qed

lemma ex_isMinIn: "ds \<noteq> [] \<Longrightarrow> \<exists>d \<in> set ds. isMinIn ds d"
proof (induction ds)
  case Nil
  then show ?case by simp
next
  case (Cons x xs)
  show ?case
  proof (cases "xs = []")
    case True
    then show ?thesis by (simp add: isMinIn_def)
  next
    case False
    with Cons.IH obtain d where d: "d \<in> set xs" "isMinIn xs d" by blast
    show ?thesis
    proof (cases "count d \<le> count x")
      case True
      with d show ?thesis by (auto simp: isMinIn_Cons)
    next
      case False
      then have "isMinIn (x # xs) x"
        using d by (auto simp: isMinIn_def)
      then show ?thesis by auto
    qed
  qed
qed

lemma ex_isMaxIn: "ds \<noteq> [] \<Longrightarrow> \<exists>d \<in> set ds. isMaxIn ds d"
proof (induction ds)
  case Nil
  then show ?case by simp
next
  case (Cons x xs)
  show ?case
  proof (cases "xs = []")
    case True
    then show ?thesis by (simp add: isMaxIn_def)
  next
    case False
    with Cons.IH obtain d where d: "d \<in> set xs" "isMaxIn xs d" by blast
    show ?thesis
    proof (cases "count x \<le> count d")
      case True
      with d show ?thesis by (auto simp: isMaxIn_Cons)
    next
      case False
      then have "isMaxIn (x # xs) x"
        using d by (auto simp: isMaxIn_def)
      then show ?thesis by auto
    qed
  qed
qed

section \<open>The fields of the statistics\<close>

text \<open>
  The entry of the daily breakdown for a date string: the number of events of the whole
  collection that fall on the date.
\<close>

definition dayCountOf :: "env \<Rightarrow> int \<Rightarrow> SlipEvent list \<Rightarrow> int \<Rightarrow> string \<Rightarrow> DayCount" where
  "dayCountOf e range' evs dailyLimit d =
     (let n = length (filter (\<lambda>ev. getDateFromTimestamp e (timestamp ev) = d) evs)
      in \<lparr>date = d, displayDate = formatDateForDisplay e d, count = n,
          isOverLimit = int n > dailyLimit\<rparr>)"

lemma filter_eventsInRange:
  "d \<in> set (getLastNDays e range') \<Longrightarrow>
     filter (\<lambda>ev. getDateFromTimestamp e (timestamp ev) = d) (eventsInRange e range' evs)
       = filter (\<lambda>ev. getDateFromTimestamp e (timestamp ev) = d) evs"
  by (auto simp: eventsInRange_def Let_def intro: filter_cong)

lemma dailyCounts_useStats:
  "dailyCounts (useStats e range' evs dailyLimit)
     = map (dayCountOf e range' evs dailyLimit) (rev (getLastNDays e range'))"
  by (simp add: useStats_def Let_def dayCountOf_def lookup0_countEvents lookup0_init
      filter_eventsInRange)

lemma bestWorst_useStats:
  "bestDay (useStats e range' evs dailyLimit)
     = find (isMinIn (dailyCounts (useStats e range' evs dailyLimit)))
         (dailyCounts (useStats e range' evs dailyLimit))"
  "worstDay (useStats e range' evs dailyLimit)
     = find (isMaxIn (dailyCounts (useStats e range' evs dailyLimit)))
         (dailyCounts (useStats e range' evs dailyLimit))"
  by (simp_all add: useStats_def Let_def fold_bestWorstStep)

lemma find_isMinIn:
  assumes "ds \<noteq> []"
  obtains b where "find (isMinIn ds) ds = Some b" "b \<in> set ds" "isMinIn ds b"
proof -
  from ex_isMinIn[OF assms] have "find (isMinIn ds) ds \<noteq> None"
    by (auto simp: find_None_iff)
  then obtain b where b: "find (isMinIn ds) ds = Some b" by auto
  then have "b \<in> set ds" "isMinIn ds b"
    by (auto simp: find_Some_iff)
  with b that show thesis by blast
qed

lemma find_isMaxIn:
  assumes "ds \<noteq> []"
  obtains w where "find (isMaxIn ds) ds = Some w" "w \<in> set ds" "isMaxIn ds w"
proof -
  from ex_isMaxIn[OF assms] have "find (isMaxIn ds) ds \<noteq> None"
    by (auto simp: find_None_iff)
  then obtain w where w: "find (isMaxIn ds) ds = Some w" by auto
  then have "w \<in> set ds" "isMaxIn ds w"
    by (auto simp: find_Some_iff)
  with w that show thesis by blast
qed

lemma length_filter_neq:
  "distinct xs \<Longrightarrow> D \<in> set xs \<Longrightarrow> length (filter (\<lambda>x. x \<noteq> D) xs) = length xs - 1"
proof (induction xs)
  case Nil
  then show ?case by simp
next
  case (Cons x xs)
  show ?case
  proof (cases "x = D")
    case True
    then have "D \<notin> set xs" using Cons.prems(1) by simp
    then have "filter (\<lambda>x. x \<noteq> D) xs = xs"
      by (auto simp: filter_id_conv)
    with True show ?thesis by simp
  next
    case False
    then have "D \<in> set xs" using Cons.prems(2) by simp
    then have "0 < length xs" by (cases xs) auto
    with Cons False \<open>D \<in> set xs\<close> show ?thesis by simp
  qed
qed

lemma totalSlips_useStats:
  "totalSlips (useStats e range' evs dailyLimit) = length (eventsInRange e range' evs)"
  by (simp add: useStats_def Let_def)

lemma avgPerDay_useStats:
  "avgPerDay (useStats e range' evs dailyLimit)
     = (if range' > 0 then js_div (of_nat (length (eventsInRange e range' evs))) (of_int range')
        else Num 0)"
  by (simp add: useStats_def Let_def)

lemma daysUnderLimitPercent_useStats:
  "daysUnderLimitPercent (useStats e range' evs dailyLimit)
     = (if range' > 0
        then js_times (js_div (of_nat (length (filter (\<lambda>d. int (count d) \<le> dailyLimit)
                 (dailyCounts (useStats e range' evs dailyLimit))))) (of_int range')) 100
        else Num 0)"
  by (simp add: useStats_def Let_def)

text \<open>
  Claim C9. For the range 0 and any collection of events the statistics are all zero:
  no slips, the average 0, no best and no worst day, 0 percent of days under the limit,
  an empty daily breakdown and no pattern. The two averages are the number 0 and not the
  NaN that a division of zero by zero would give: the divisions by the range are guarded
  by \<open>range > 0\<close>.
\<close>

theorem useStats_range_zero:
  "useStats e 0 evs dailyLimit =
     \<lparr>totalSlips = 0, avgPerDay = Num 0, bestDay = None, worstDay = None,
      daysUnderLimitPercent = Num 0, dailyCounts = [], peakHour = None, peakDayOfWeek = None,
      hasEnoughDataForPatterns = False, hasAnyData = (evs \<noteq> [])\<rparr>"
  by (simp add: useStats_def getLastNDays_def eventsInRange_def Let_def countEvents_def
      MIN_DAYS_FOR_PATTERNS_def)

text \<open>
  Claim C7. For the range 7 and the limit 3, when the events of the range are exactly
  five events on one day, the statistics have \<open>totalSlips = 5\<close>, \<open>avgPerDay = 5/7\<close>, a
  worst day with count 5, a best day with count 0 and \<open>daysUnderLimitPercent = 600/7\<close>.
\<close>

theorem useStats_single_day:
  assumes "length (eventsInRange e 7 evs) = 5"
    and "\<forall>ev \<in> set (eventsInRange e 7 evs). getDateFromTimestamp e (timestamp ev) = D"
  shows "totalSlips (useStats e 7 evs 3) = 5
    \<and> avgPerDay (useStats e 7 evs 3) = Num (5 / 7)
    \<and> map_option count (worstDay (useStats e 7 evs 3)) = Some 5
    \<and> map_option count (bestDay (useStats e 7 evs 3)) = Some 0
    \<and> daysUnderLimitPercent (useStats e 7 evs 3) = Num (600 / 7)"
proof -
  define dates where "dates = getLastNDays e 7"
  define inr where "inr = eventsInRange e 7 evs"
  define st where "st = useStats e 7 evs 3"
  define dcs where "dcs = dailyCounts st"
  have dist: "distinct dates" and len: "length dates = 7"
    by (simp_all add: dates_def distinct_getLastNDays length_getLastNDays)
  have inr5: "length inr = 5" and allD: "\<forall>ev \<in> set inr. getDateFromTimestamp e (timestamp ev) = D"
    using assms by (simp_all add: inr_def)
  from inr5 obtain ev where ev: "ev \<in> set inr"
    by (cases inr) auto
  then have "getDateFromTimestamp e (timestamp ev) \<in> set dates"
    by (simp add: inr_def eventsInRange_def dates_def Let_def)
  then have D: "D \<in> set dates"
    using allD ev by simp
  have cnt: "count (dayCountOf e 7 evs 3 d) = (if d = D then 5 else 0)" if "d \<in> set dates" for d
  proof -
    have "count (dayCountOf e 7 evs 3 d)
        = length (filter (\<lambda>ev. getDateFromTimestamp e (timestamp ev) = d) inr)"
      using that by (simp add: dayCountOf_def Let_def inr_def dates_def filter_eventsInRange)
    also have "\<dots> = (if d = D then 5 else 0)"
    proof (cases "d = D")
      case True
      then have "filter (\<lambda>ev. getDateFromTimestamp e (timestamp ev) = d) inr = inr"
        using allD by (simp add: filter_id_conv)
      with True inr5 show ?thesis by simp
    next
      case False
      then have "filter (\<lambda>ev. getDateFromTimestamp e (timestamp ev) = d) inr = []"
        using allD by (simp add: filter_empty_conv)
      with False show ?thesis by simp
    qed
    finally show ?thesis .
  qed
  have dcs: "dcs = map (dayCountOf e 7 evs 3) (rev dates)"
    by (simp add: dcs_def st_def dates_def dailyCounts_useStats)
  have ne: "dcs \<noteq> []"
    using len by (auto simp: dcs)
  have vals: "count d = 0 \<or> count d = 5" if "d \<in> set dcs" for d
    using that cnt by (auto simp: dcs)
  have has5: "\<exists>d \<in> set dcs. count d = 5"
    using D cnt[OF D] by (auto simp: dcs)
  have "length (filter (\<lambda>x. x \<noteq> D) dates) = 6"
    using length_filter_neq[OF dist D] len by simp
  then have "filter (\<lambda>x. x \<noteq> D) dates \<noteq> []"
    by auto
  then obtain d0 where "d0 \<in> set (filter (\<lambda>x. x \<noteq> D) dates)"
    by (cases "filter (\<lambda>x. x \<noteq> D) dates") auto
  then have d0: "d0 \<in> set dates" "d0 \<noteq> D"
    by simp_all
  have has0: "\<exists>d \<in> set dcs. count d = 0"
    using d0 cnt[OF d0(1)] by (auto simp: dcs)
  have under: "length (filter (\<lambda>d. int (count d) \<le> 3) dcs) = 6"
  proof -
    have "filter (\<lambda>d. int (count d) \<le> 3) dcs
        = map (dayCountOf e 7 evs 3) (filter (\<lambda>d. int (count (dayCountOf e 7 evs 3 d)) \<le> 3) (rev dates))"
      by (simp add: dcs filter_map comp_def)
    also have "filter (\<lambda>d. int (count (dayCountOf e 7 evs 3 d)) \<le> 3) (rev dates)
        = filter (\<lambda>d. d \<noteq> D) (rev dates)"
      by (rule filter_cong) (simp_all add: cnt)
    finally have "length (filter (\<lambda>d. int (count d) \<le> 3) dcs)
        = length (filter (\<lambda>d. d \<noteq> D) (rev dates))"
      by simp
    also have "\<dots> = 6"
      using length_filter_neq[of "rev dates" D] dist D len by simp
    finally show ?thesis .
  qed
  have total: "totalSlips st = 5"
    using inr5 by (simp add: st_def totalSlips_useStats inr_def)
  have avg: "avgPerDay st = Num (5 / 7)"
    using inr5 by (simp add: st_def avgPerDay_useStats inr_def js_div_def)
  have pct: "daysUnderLimitPercent st = Num (600 / 7)"
    using under by (simp add: st_def daysUnderLimitPercent_useStats dcs_def js_div_def)
  obtain w where w: "worstDay st = Some w" "w \<in> set dcs" "isMaxIn dcs w"
    using find_isMaxIn[OF ne] by (auto simp: st_def dcs_def bestWorst_useStats)
  obtain b where b: "bestDay st = Some b" "b \<in> set dcs" "isMinIn dcs b"
    using find_isMinIn[OF ne] by (auto simp: st_def dcs_def bestWorst_useStats)
  have "count w = 5"
    using has5 vals[OF w(2)] isMaxIn_ge[OF w(3)] by force
  moreover have "count b = 0"
    using has0 vals[OF b(2)] isMinIn_le[OF b(3)] by force
  ultimately show ?thesis
    using total avg pct w(1) b(1) by (simp add: st_def)
qed

section \<open>Evaluating dates in January 2025\<close>

lemma YearFromDay_unique:
  assumes "DayFromYear y \<le> d" "d < DayFromYear (y + 1)"
  shows "YearFromDay d = y"
proof (rule antisym)
  show "YearFromDay d \<le> y"
  proof (rule ccontr)
    assume "\<not> YearFromDay d \<le> y"
    then have "y + 1 \<le> YearFromDay d" by simp
    from DayFromYear_mono[OF this] show False
      using assms(2) YearFromDay_bounds(1)[of d] by simp
  qed
  show "y \<le> YearFromDay d"
  proof (rule ccontr)
    assume "\<not> y \<le> YearFromDay d"
    then have "YearFromDay d + 1 \<le> y" by simp
    from DayFromYear_mono[OF this] show False
      using assms(1) YearFromDay_bounds(2)[of d] by simp
  qed
qed

definition dateKey :: "int \<Rightarrow> string" where
  "dateKey d =
     toString (YearFromDay d) @ ''-'' @ padStart 2 (CHR ''0'') (toString (MonthFromDay d + 1))
       @ ''-'' @ padStart 2 (CHR ''0'') (toString (DateFromDay d))"

lemma formatDateString_dateKey: "formatDateString e (Some t) = dateKey (Day (LocalTime e t))"
  by (simp add: formatDateString_def dateKey_def getFullYear_def getMonth_def getDate_def Let_def)

lemma getDaysAgoDateString_dateKey:
  "getDaysAgoDateString e i = dateKey (Day (LocalTime e (now e)) - i)"
  by (simp add: getDaysAgoDateString_def formatDateString_dateKey setDate_shift Day_shift)

lemma show_nat_2025: "show_nat 2025 = ''2025''"
  by (simp add: show_nat.simps digit_char_simps)

lemma digit_char_Suc0: "digit_char (Suc 0) = CHR ''1''"
  using digit_char_simps(2) by simp

lemma rev_upt_small: "rev [0..<2] = [1, 0]" "rev [0..<7] = [6, 5, 4, 3, 2, 1, 0::nat]"
  by code_simp+

lemma dateKey_jan2025:
  assumes "20089 \<le> d" "d < 20120"
  shows "dateKey d
    = ''2025-01-'' @ [digit_char (nat (d - 20088) div 10), digit_char (nat (d - 20088) mod 10)]"
proof -
  have "DayFromYear 2025 = 20089" "DayFromYear (2025 + 1) = 20454"
    by (simp_all add: DayFromYear_def)
  then have y: "YearFromDay d = 2025"
    using assms by (intro YearFromDay_unique) simp_all
  then have w: "DayWithinYear d = d - 20089"
    by (simp add: DayWithinYear_def DayFromYear_def)
  have m: "MonthFromDay d = 0"
    using assms by (simp add: MonthFromDay_def w Let_def)
  have dt: "DateFromDay d = d - 20088"
    by (simp add: DateFromDay_def m w Let_def)
  have "0 \<le> d - 20088" "d - 20088 < 100"
    using assms by simp_all
  note p = pad2[OF this]
  have p1: "padStart 2 (CHR ''0'') (toString (0 + 1)) = ''01''"
    by (simp add: padStart_def toString_def show_nat_small digit_char_Suc0)
  have ty: "toString 2025 = ''2025''"
    by (simp add: toString_def show_nat_2025)
  show ?thesis
    by (simp only: dateKey_def y m dt p p1 ty) simp
qed

lemma utcHost_simps:
  "now utcHost = 1737028800000" "tzOffset utcHost = 0" "parseDate utcHost = isoParse"
  by (simp_all add: utcHost_def)

lemma utcHost_today: "Day (LocalTime utcHost (now utcHost)) = 20104"
  by (simp add: utcHost_simps Day_def LocalTime_def msPerDay_def)

lemma utcHost_daysAgo:
  assumes "0 \<le> i" "i < 16"
  shows "getDaysAgoDateString utcHost i
    = ''2025-01-'' @ [digit_char (nat (16 - i) div 10), digit_char (nat (16 - i) mod 10)]"
proof -
  have "20089 \<le> 20104 - i" "20104 - i < 20120"
    using assms by simp_all
  from dateKey_jan2025[OF this] show ?thesis
    by (simp add: getDaysAgoDateString_dateKey utcHost_today)
qed

lemma utcHost_lastDays:
  "getLastNDays utcHost 2 = [''2025-01-15'', ''2025-01-16'']"
  "getLastNDays utcHost 7 = [''2025-01-10'', ''2025-01-11'', ''2025-01-12'', ''2025-01-13'',
     ''2025-01-14'', ''2025-01-15'', ''2025-01-16'']"
  by (simp_all add: getLastNDays_eq rev_upt_small utcHost_daysAgo digit_char_simps
      digit_char_Suc0)

text \<open>The date, the hour and the weekday of an ISO timestamp on the host of the examples.\<close>

lemma utcHost_date:
  assumes "isoParse s = Some t" "20089 * 86400000 \<le> t" "t < 20120 * 86400000"
  shows "getDateFromTimestamp utcHost s
    = ''2025-01-'' @ [digit_char (nat (t div 86400000 - 20088) div 10),
                      digit_char (nat (t div 86400000 - 20088) mod 10)]"
proof -
  have "20089 \<le> t div 86400000" "t div 86400000 < 20120"
    using assms(2,3) by linarith+
  from dateKey_jan2025[OF this] show ?thesis
    by (simp add: getDateFromTimestamp_def utcHost_simps assms(1) formatDateString_dateKey
        Day_def LocalTime_def msPerDay_def)
qed

lemma utcHost_hour:
  "isoParse s = Some t \<Longrightarrow>
     getHourFromTimestamp utcHost s = Some (nat ((t div 3600000) mod 24))"
  by (simp add: getHourFromTimestamp_def utcHost_simps getHours_def LocalTime_def msPerHour_def)

lemma utcHost_weekday:
  "isoParse s = Some t \<Longrightarrow>
     getDayOfWeekFromTimestamp utcHost s = Some (nat ((t div 86400000 + 4) mod 7))"
  by (simp add: getDayOfWeekFromTimestamp_def utcHost_simps getDay_def LocalTime_def Day_def
      msPerDay_def)

section \<open>The examples\<close>

lemmas isoParse_eval =
  isoParse_def isoDate_def isoTime_def digits_at_def digit_val_def MakeDay_def
  DayFromYear_def DaysInYear_def msPerDay_def msPerHour_def Let_def

lemma example_parse:
  "isoParse ''2025-01-14T08:15:00.000Z'' = Some 1736842500000"
  "isoParse ''2025-01-14T21:40:00.000Z'' = Some 1736890800000"
  "isoParse ''2025-01-15T09:05:00.000Z'' = Some 1736931900000"
  "isoParse ''2025-01-15T13:30:00.000Z'' = Some 1736947800000"
  "isoParse ''2025-01-15T21:10:00.000Z'' = Some 1736975400000"
  "isoParse ''2025-01-16T07:45:00.000Z'' = Some 1737013500000"
  "isoParse ''2025-01-14T11:40:00.000Z'' = Some 1736854800000"
  "isoParse ''2025-01-14T15:05:00.000Z'' = Some 1736867100000"
  "isoParse ''2025-01-14T19:30:00.000Z'' = Some 1736883000000"
  "isoParse ''2025-01-03T10:00:00.000Z'' = Some 1735898400000"
  by (simp_all add: isoParse_eval)

lemma example_dates:
  "getDateFromTimestamp utcHost ''2025-01-14T08:15:00.000Z'' = ''2025-01-14''"
  "getDateFromTimestamp utcHost ''2025-01-14T21:40:00.000Z'' = ''2025-01-14''"
  "getDateFromTimestamp utcHost ''2025-01-15T09:05:00.000Z'' = ''2025-01-15''"
  "getDateFromTimestamp utcHost ''2025-01-15T13:30:00.000Z'' = ''2025-01-15''"
  "getDateFromTimestamp utcHost ''2025-01-15T21:10:00.000Z'' = ''2025-01-15''"
  "getDateFromTimestamp utcHost ''2025-01-16T07:45:00.000Z'' = ''2025-01-16''"
  "getDateFromTimestamp utcHost ''2025-01-14T11:40:00.000Z'' = ''2025-01-14''"
  "getDateFromTimestamp utcHost ''2025-01-14T15:05:00.000Z'' = ''2025-01-14''"
  "getDateFromTimestamp utcHost ''2025-01-14T19:30:00.000Z'' = ''2025-01-14''"
  "getDateFromTimestamp utcHost ''2025-01-03T10:00:00.000Z'' = ''2025-01-03''"
  by (simp_all add: utcHost_date[OF example_parse(1)] utcHost_date[OF example_parse(2)]
      utcHost_date[OF example_parse(3)] utcHost_date[OF example_parse(4)]
      utcHost_date[OF example_parse(5)] utcHost_date[OF example_parse(6)]
      utcHost_date[OF example_parse(7)] utcHost_date[OF example_parse(8)]
      utcHost_date[OF example_parse(9)] utcHost_date[OF example_parse(10)]
      digit_char_simps digit_char_Suc0)

text \<open>
  The example of claim C3: on 16 January 2025, two slips on the 14th, three on the 15th
  and one on the 16th, and no other event.
\<close>

definition streakExample :: "SlipEvent list" where
  "streakExample =
     [slip ''a1'' ''2025-01-14T08:15:00.000Z'', slip ''a2'' ''2025-01-14T21:40:00.000Z'',
      slip ''b1'' ''2025-01-15T09:05:00.000Z'', slip ''b2'' ''2025-01-15T13:30:00.000Z'',
      slip ''b3'' ''2025-01-15T21:10:00.000Z'', slip ''c1'' ''2025-01-16T07:45:00.000Z'']"

lemma streakExample_counts:
  "countEvents utcHost streakExample []
     = [(''2025-01-14'', 2), (''2025-01-15'', 3), (''2025-01-16'', 1)]"
  by (simp add: countEvents_def streakExample_def slip_def example_dates incr_def lookup0_def)

text \<open>
  An example for the statistics: five slips on 14 January 2025 and one on 3 January,
  before the last seven days.
\<close>

definition statsExample :: "SlipEvent list" where
  "statsExample =
     [slip ''a1'' ''2025-01-14T08:15:00.000Z'', slip ''a2'' ''2025-01-14T11:40:00.000Z'',
      slip ''a3'' ''2025-01-14T15:05:00.000Z'', slip ''a4'' ''2025-01-14T19:30:00.000Z'',
      slip ''a5'' ''2025-01-14T21:40:00.000Z'', slip ''z1'' ''2025-01-03T10:00:00.000Z'']"

lemma statsExample_inRange:
  "eventsInRange utcHost 7 statsExample = take 5 statsExample"
  by (simp add: eventsInRange_def Let_def utcHost_lastDays statsExample_def slip_def
      example_dates)

lemma statsExample_dates:
  "\<forall>ev \<in> set (take 5 statsExample). getDateFromTimestamp utcHost (timestamp ev) = ''2025-01-14''"
  by (simp add: statsExample_def slip_def example_dates)

text \<open>
  Claim C1, as amended. The daily breakdown lists the days of the range newest first, and
  the best day and the worst day are found by one pass over that list: \<open>bestDay\<close> is the
  first day of the breakdown whose count is minimal and \<open>worstDay\<close> the first whose count
  is maximal (none for an empty range). Where days tie on the extreme count, the first day
  in the newest-first order, which is the latest date, wins.
\<close>

theorem bestWorst_first_in_list:
  "dailyCounts (useStats e range' evs dailyLimit)
     = map (dayCountOf e range' evs dailyLimit) (rev (getLastNDays e range'))
   \<and> bestDay (useStats e range' evs dailyLimit)
     = find (isMinIn (dailyCounts (useStats e range' evs dailyLimit)))
         (dailyCounts (useStats e range' evs dailyLimit))
   \<and> worstDay (useStats e range' evs dailyLimit)
     = find (isMaxIn (dailyCounts (useStats e range' evs dailyLimit)))
         (dailyCounts (useStats e range' evs dailyLimit))"
  by (intro conjI dailyCounts_useStats bestWorst_useStats)

lemma dayCountOf_no_events:
  "count (dayCountOf e r [] l x) = 0" "date (dayCountOf e r [] l x) = x"
  by (simp_all add: dayCountOf_def)

theorem bestWorst_first_in_list_witness:
  "map date (dailyCounts (useStats utcHost 2 [] 3)) = [''2025-01-16'', ''2025-01-15'']
   \<and> map count (dailyCounts (useStats utcHost 2 [] 3)) = [0, 0]
   \<and> bestDay (useStats utcHost 2 [] 3) = Some (dayCountOf utcHost 2 [] 3 ''2025-01-16'')
   \<and> worstDay (useStats utcHost 2 [] 3) = Some (dayCountOf utcHost 2 [] 3 ''2025-01-16'')"
proof -
  note t = bestWorst_first_in_list[of utcHost 2 "[]" 3]
  have d: "dailyCounts (useStats utcHost 2 [] 3)
      = [dayCountOf utcHost 2 [] 3 ''2025-01-16'', dayCountOf utcHost 2 [] 3 ''2025-01-15'']"
    using t by (simp add: utcHost_lastDays)
  have "bestDay (useStats utcHost 2 [] 3) = Some (dayCountOf utcHost 2 [] 3 ''2025-01-16'')"
    using t by (simp add: d isMinIn_def dayCountOf_no_events)
  moreover have "worstDay (useStats utcHost 2 [] 3) = Some (dayCountOf utcHost 2 [] 3 ''2025-01-16'')"
    using t by (simp add: d isMaxIn_def dayCountOf_no_events)
  ultimately show ?thesis
    by (simp add: d dayCountOf_no_events)
qed

text \<open>
  The claim as first stated fails: with no events in a range of two days both days tie
  on the count 0, and the best and the worst day are the newer day, 16 January, not the
  first day in ascending order of date, 15 January.
\<close>

theorem bestDay_tie_newest_wins:
  "getLastNDays utcHost 2 = [''2025-01-15'', ''2025-01-16'']
   \<and> map date (dailyCounts (useStats utcHost 2 [] 3)) = [''2025-01-16'', ''2025-01-15'']
   \<and> map count (dailyCounts (useStats utcHost 2 [] 3)) = [0, 0]
   \<and> map_option date (bestDay (useStats utcHost 2 [] 3)) = Some ''2025-01-16''
   \<and> map_option date (worstDay (useStats utcHost 2 [] 3)) = Some ''2025-01-16''
   \<and> map_option date (bestDay (useStats utcHost 2 [] 3)) \<noteq> Some (hd (getLastNDays utcHost 2))
   \<and> map_option date (worstDay (useStats utcHost 2 [] 3)) \<noteq> Some (hd (getLastNDays utcHost 2))"
proof -
  have d: "dailyCounts (useStats utcHost 2 [] 3)
      = [dayCountOf utcHost 2 [] 3 ''2025-01-16'', dayCountOf utcHost 2 [] 3 ''2025-01-15'']"
    by (simp add: dailyCounts_useStats utcHost_lastDays)
  have "bestDay (useStats utcHost 2 [] 3) = Some (dayCountOf utcHost 2 [] 3 ''2025-01-16'')"
    by (simp add: bestWorst_useStats d isMinIn_def dayCountOf_no_events)
  moreover have "worstDay (useStats utcHost 2 [] 3) = Some (dayCountOf utcHost 2 [] 3 ''2025-01-16'')"
    by (simp add: bestWorst_useStats d isMaxIn_def dayCountOf_no_events)
  ultimately show ?thesis
    by (simp add: d dayCountOf_no_events utcHost_lastDays)
qed

theorem useStats_range_zero_witness:
  "useStats utcHost 0 [slip ''a1'' ''2025-01-14T08:15:00.000Z''] 3 =
     \<lparr>totalSlips = 0, avgPerDay = Num 0, bestDay = None, worstDay = None,
      daysUnderLimitPercent = Num 0, dailyCounts = [], peakHour = None, peakDayOfWeek = None,
      hasEnoughDataForPatterns = False, hasAnyData = True\<rparr>"
  using useStats_range_zero[of utcHost "[slip ''a1'' ''2025-01-14T08:15:00.000Z'']" 3]
  by simp

theorem useStats_single_day_witness:
  "length (eventsInRange utcHost 7 statsExample) = 5
   \<and> map (\<lambda>ev. getDateFromTimestamp utcHost (timestamp ev)) (eventsInRange utcHost 7 statsExample)
       = replicate 5 ''2025-01-14''
   \<and> totalSlips (useStats utcHost 7 statsExample 3) = 5
   \<and> avgPerDay (useStats utcHost 7 statsExample 3) = Num (5 / 7)
   \<and> map_option count (worstDay (useStats utcHost 7 statsExample 3)) = Some 5
   \<and> map_option count (bestDay (useStats utcHost 7 statsExample 3)) = Some 0
   \<and> daysUnderLimitPercent (useStats utcHost 7 statsExample 3) = Num (600 / 7)"
proof -
  have a: "length (eventsInRange utcHost 7 statsExample) = 5"
    unfolding statsExample_inRange by (simp add: statsExample_def)
  have b: "\<forall>ev \<in> set (eventsInRange utcHost 7 statsExample).
      getDateFromTimestamp utcHost (timestamp ev) = ''2025-01-14''"
    unfolding statsExample_inRange by (rule statsExample_dates)
  have c: "map (\<lambda>ev. getDateFromTimestamp utcHost (timestamp ev))
      (eventsInRange utcHost 7 statsExample) = replicate 5 ''2025-01-14''"
    unfolding statsExample_inRange
    by (simp add: statsExample_def slip_def example_dates numeral_eq_Suc)
  from useStats_single_day[OF a b] a c show ?thesis
    by blast
qed

text \<open>
  Claim C3 as first stated, that the current streak of the example is 3 for the limit 3,
  fails: the walk does not stop at the first day without events, every earlier day counts
  as under the limit, and the streak of the example is 366.
\<close>

theorem useStreak_example:
  "getTodayDateString utcHost = ''2025-01-16''
   \<and> countEvents utcHost streakExample []
       = [(''2025-01-14'', 2), (''2025-01-15'', 3), (''2025-01-16'', 1)]
   \<and> current (useStreak utcHost streakExample 3) = 366
   \<and> current (useStreak utcHost streakExample 3) \<noteq> 3"
proof -
  have "\<forall>k. int (lookup0 (countEvents utcHost streakExample []) k) \<le> 3"
    by (simp add: streakExample_counts lookup0_def)
  from currentStreakLoop_all_under[OF this, of 0 utcHost 0]
  have "current (useStreak utcHost streakExample 3) = 366"
    by (simp add: current_useStreak)
  moreover have "getTodayDateString utcHost = ''2025-01-16''"
    using utcHost_daysAgo[of 0]
    by (simp add: getTodayDateString_def getDaysAgoDateString_def setDate_def digit_char_simps
        digit_char_Suc0)
  ultimately show ?thesis
    by (simp add: streakExample_counts)
qed

section \<open>The streak over the three most recent days\<close>

text \<open>The number of events on the day \<open>daysAgo\<close> days before today.\<close>

definition slipsOn :: "env \<Rightarrow> SlipEvent list \<Rightarrow> int \<Rightarrow> nat" where
  "slipsOn e evs daysAgo =
     length (filter (\<lambda>ev. getDateFromTimestamp e (timestamp ev) = getDaysAgoDateString e daysAgo)
       evs)"

lemma lookup0_slipsOn:
  "lookup0 (countEvents e evs []) (getDaysAgoDateString e daysAgo) = slipsOn e evs daysAgo"
  by (simp add: lookup0_countEvents lookup0_Nil slipsOn_def)

lemma currentStreakLoop_continue:
  assumes "int (lookup0 c (getDaysAgoDateString e (int daysAgo))) \<le> limit" "daysAgo < 365"
  shows "currentStreakLoop e c limit cur daysAgo
    = currentStreakLoop e c limit (cur + 1) (daysAgo + 1)"
  using assms by (subst currentStreakLoop.simps) (simp add: Let_def)

lemma currentStreakLoop_stop:
  assumes "\<not> int (lookup0 c (getDaysAgoDateString e (int daysAgo))) \<le> limit"
  shows "currentStreakLoop e c limit cur daysAgo = cur"
  using assms by (subst currentStreakLoop.simps) (simp add: Let_def)

lemma currentStreakLoop_ge: "cur \<le> currentStreakLoop e c limit cur daysAgo"
proof (induction e c limit cur daysAgo rule: currentStreakLoop.induct)
  case (1 e c limit cur daysAgo)
  show ?case
  proof (cases "int (lookup0 c (getDaysAgoDateString e (int daysAgo))) \<le> limit")
    case False
    then show ?thesis by (simp add: currentStreakLoop_stop)
  next
    case under: True
    show ?thesis
    proof (cases "daysAgo + 1 > 365")
      case True
      with under show ?thesis
        by (subst currentStreakLoop.simps) (simp add: Let_def)
    next
      case False
      from 1[OF refl refl under False]
      have "cur + 1 \<le> currentStreakLoop e c limit (cur + 1) (daysAgo + 1)" .
      with under False show ?thesis
        by (subst currentStreakLoop.simps) (simp add: Let_def)
    qed
  qed
qed

lemma three_days_walk:
  assumes "slipsOn e evs 2 = 2" "slipsOn e evs 1 = 3" "slipsOn e evs 0 = 1"
  shows "current (useStreak e evs 3) = currentStreakLoop e (countEvents e evs []) 3 3 3"
proof -
  define c where "c = countEvents e evs []"
  have l: "lookup0 c (getDaysAgoDateString e 0) = 1"
    "lookup0 c (getDaysAgoDateString e 1) = 3"
    "lookup0 c (getDaysAgoDateString e 2) = 2"
    using assms by (simp_all add: c_def lookup0_slipsOn)
  have "currentStreakLoop e c 3 0 0 = currentStreakLoop e c 3 (0 + 1) (0 + 1)"
    by (rule currentStreakLoop_continue) (simp_all add: l)
  also have "\<dots> = currentStreakLoop e c 3 (1 + 1) (1 + 1)"
    by (simp only: add_0) (rule currentStreakLoop_continue, simp_all add: l)
  also have "\<dots> = currentStreakLoop e c 3 (2 + 1) (2 + 1)"
    by (simp only: one_add_one) (rule currentStreakLoop_continue, simp_all add: l)
  finally show ?thesis
    by (simp add: current_useStreak c_def)
qed

text \<open>
  Claim C3, as amended. For the limit 3 and a collection with two events the day before
  yesterday, three yesterday and one today, the current streak is at least 3. It is 3
  when the day before those three has more than three events. When the collection has no
  other events the earlier days, which have none, count as under the limit too, the walk
  goes on to its bound, and the current streak is 366.
\<close>

theorem currentStreak_three_days:
  "slipsOn e evs 2 = 2 \<and> slipsOn e evs 1 = 3 \<and> slipsOn e evs 0 = 1 \<longrightarrow>
     3 \<le> current (useStreak e evs 3)
     \<and> (3 < slipsOn e evs 3 \<longrightarrow> current (useStreak e evs 3) = 3)
     \<and> ((\<forall>ev \<in> set evs. getDateFromTimestamp e (timestamp ev)
             \<in> {getDaysAgoDateString e 0, getDaysAgoDateString e 1, getDaysAgoDateString e 2})
          \<longrightarrow> current (useStreak e evs 3) = 366)"
proof (intro impI conjI)
  assume a: "slipsOn e evs 2 = 2 \<and> slipsOn e evs 1 = 3 \<and> slipsOn e evs 0 = 1"
  then have w: "current (useStreak e evs 3) = currentStreakLoop e (countEvents e evs []) 3 3 3"
    by (intro three_days_walk) simp_all
  show "3 \<le> current (useStreak e evs 3)"
    unfolding w by (rule currentStreakLoop_ge)
  show "current (useStreak e evs 3) = 3" if "3 < slipsOn e evs 3"
  proof -
    have "\<not> int (lookup0 (countEvents e evs []) (getDaysAgoDateString e (int 3))) \<le> 3"
      using that by (simp add: lookup0_slipsOn)
    from currentStreakLoop_stop[OF this] show ?thesis
      by (simp add: w)
  qed
  show "current (useStreak e evs 3) = 366"
    if only: "\<forall>ev \<in> set evs. getDateFromTimestamp e (timestamp ev)
             \<in> {getDaysAgoDateString e 0, getDaysAgoDateString e 1, getDaysAgoDateString e 2}"
  proof -
    have "int (lookup0 (countEvents e evs []) k) \<le> 3" for k
    proof (cases "k \<in> {getDaysAgoDateString e 0, getDaysAgoDateString e 1,
        getDaysAgoDateString e 2}")
      case True
      then show ?thesis
        using a lookup0_slipsOn[of e evs 0] lookup0_slipsOn[of e evs 1]
          lookup0_slipsOn[of e evs 2] by auto
    next
      case False
      then have "filter (\<lambda>ev. getDateFromTimestamp e (timestamp ev) = k) evs = []"
        using only by (auto simp: filter_empty_conv)
      then show ?thesis
        by (simp add: lookup0_countEvents lookup0_Nil)
    qed
    then have "\<forall>k. int (lookup0 (countEvents e evs []) k) \<le> 3" by blast
    from currentStreakLoop_all_under[OF this, of 0 e 0] show ?thesis
      by (simp add: current_useStreak)
  qed
qed

text \<open>The example with four more slips on 13 January, the day before the three days.\<close>

definition streakExample4 :: "SlipEvent list" where
  "streakExample4 =
     [slip ''z1'' ''2025-01-13T07:30:00.000Z'', slip ''z2'' ''2025-01-13T12:10:00.000Z'',
      slip ''z3'' ''2025-01-13T18:20:00.000Z'', slip ''z4'' ''2025-01-13T23:05:00.000Z'']
     @ streakExample"

lemma example13_parse:
  "isoParse ''2025-01-13T07:30:00.000Z'' = Some 1736753400000"
  "isoParse ''2025-01-13T12:10:00.000Z'' = Some 1736770200000"
  "isoParse ''2025-01-13T18:20:00.000Z'' = Some 1736792400000"
  "isoParse ''2025-01-13T23:05:00.000Z'' = Some 1736809500000"
  by (simp_all add: isoParse_eval)

lemma example13_dates:
  "getDateFromTimestamp utcHost ''2025-01-13T07:30:00.000Z'' = ''2025-01-13''"
  "getDateFromTimestamp utcHost ''2025-01-13T12:10:00.000Z'' = ''2025-01-13''"
  "getDateFromTimestamp utcHost ''2025-01-13T18:20:00.000Z'' = ''2025-01-13''"
  "getDateFromTimestamp utcHost ''2025-01-13T23:05:00.000Z'' = ''2025-01-13''"
  by (simp_all add: utcHost_date[OF example13_parse(1)] utcHost_date[OF example13_parse(2)]
      utcHost_date[OF example13_parse(3)] utcHost_date[OF example13_parse(4)]
      digit_char_simps digit_char_Suc0)

lemma utcHost_recent_days:
  "getDaysAgoDateString utcHost 0 = ''2025-01-16''" "getDaysAgoDateString utcHost 1 = ''2025-01-15''"
  "getDaysAgoDateString utcHost 2 = ''2025-01-14''" "getDaysAgoDateString utcHost 3 = ''2025-01-13''"
  by (simp_all add: utcHost_daysAgo digit_char_simps digit_char_Suc0)

lemma streakExample_slipsOn:
  "slipsOn utcHost streakExample 2 = 2" "slipsOn utcHost streakExample 1 = 3"
  "slipsOn utcHost streakExample 0 = 1"
  "slipsOn utcHost streakExample4 2 = 2" "slipsOn utcHost streakExample4 1 = 3"
  "slipsOn utcHost streakExample4 0 = 1" "slipsOn utcHost streakExample4 3 = 4"
  by (simp_all add: slipsOn_def utcHost_recent_days streakExample4_def streakExample_def slip_def
      example_dates example13_dates)

theorem currentStreak_three_days_witness:
  "slipsOn utcHost streakExample 2 = 2 \<and> slipsOn utcHost streakExample 1 = 3
   \<and> slipsOn utcHost streakExample 0 = 1
   \<and> current (useStreak utcHost streakExample 3) = 366
   \<and> slipsOn utcHost streakExample4 2 = 2 \<and> slipsOn utcHost streakExample4 1 = 3
   \<and> slipsOn utcHost streakExample4 0 = 1 \<and> slipsOn utcHost streakExample4 3 = 4
   \<and> current (useStreak utcHost streakExample4 3) = 3"
proof -
  have only: "\<forall>ev \<in> set streakExample. getDateFromTimestamp utcHost (timestamp ev)
      \<in> {getDaysAgoDateString utcHost 0, getDaysAgoDateString utcHost 1,
          getDaysAgoDateString utcHost 2}"
    by (simp add: utcHost_recent_days streakExample_def slip_def example_dates)
  from currentStreak_three_days[of utcHost streakExample] streakExample_slipsOn(1,2,3) only
  have 1: "current (useStreak utcHost streakExample 3) = 366"
    by blast
  have "3 < slipsOn utcHost streakExample4 3"
    by (simp add: streakExample_slipsOn)
  with currentStreak_three_days[of utcHost streakExample4] streakExample_slipsOn(4,5,6)
  have 2: "current (useStreak utcHost streakExample4 3) = 3"
    by blast
  from 1 2 streakExample_slipsOn show ?thesis
    by blast
qed

section \<open>Buckets\<close>

text \<open>The number of events whose key (the hour, or the weekday) is \<open>k\<close>.\<close>

definition countBy :: "(string \<Rightarrow> nat option) \<Rightarrow> SlipEvent list \<Rightarrow> nat \<Rightarrow> nat" where
  "countBy key evs k = length (filter (\<lambda>ev. key (timestamp ev) = Some k) evs)"

lemma map_of_assignIdx: "map_of (assignIdx k v obj) = (map_of obj)(k \<mapsto> v)"
  by (induction obj) (auto simp: fun_eq_iff)

lemma lookup0_incrIdx:
  "lookup0 (incrIdx k obj) k' = (if k' = k then lookup0 obj k + 1 else lookup0 obj k')"
  by (simp add: incrIdx_def lookup0_def map_of_assignIdx)

lemma keys_assignIdx: "fst ` set (assignIdx k v obj) = insert k (fst ` set obj)"
proof (induction obj)
  case Nil
  then show ?case by simp
next
  case (Cons p obj)
  obtain k' v' where p: "p = (k', v')" by (cases p)
  show ?case
    using Cons.IH by (simp add: p insert_commute)
qed

lemma sorted_assignIdx:
  "sorted_wrt (<) (map fst obj) \<Longrightarrow> sorted_wrt (<) (map fst (assignIdx k v obj))"
proof (induction obj)
  case Nil
  then show ?case by simp
next
  case (Cons p obj)
  obtain k' v' where p: "p = (k', v')" by (cases p)
  show ?case
  proof (cases "k = k'")
    case True
    with Cons.prems show ?thesis by (simp add: p)
  next
    case ne: False
    show ?thesis
    proof (cases "k < k'")
      case True
      with Cons.prems ne show ?thesis by (auto simp: p)
    next
      case False
      then have gt: "k' < k" using ne by simp
      have "\<forall>x \<in> fst ` set (assignIdx k v obj). k' < x"
        using Cons.prems gt by (auto simp: keys_assignIdx p)
      then show ?thesis
        using Cons False ne by (simp add: p)
    qed
  qed
qed

lemma lookup0_bucket_fold:
  "lookup0 (fold (\<lambda>event obj. case key (timestamp event) of None \<Rightarrow> obj
                                  | Some k \<Rightarrow> incrIdx k obj) evs obj) k
     = lookup0 obj k + countBy key evs k"
proof (induction evs arbitrary: obj)
  case Nil
  then show ?case by (simp add: countBy_def)
next
  case (Cons ev evs)
  show ?case
  proof (cases "key (timestamp ev)")
    case None
    then show ?thesis
      using Cons.IH[of obj] by (simp add: countBy_def)
  next
    case (Some j)
    then show ?thesis
      using Cons.IH[of "incrIdx j obj"] by (simp add: countBy_def lookup0_incrIdx)
  qed
qed

lemma lookup0_bucketBy: "lookup0 (bucketBy key evs) k = countBy key evs k"
  using lookup0_bucket_fold[of key evs "[]" k] by (simp add: bucketBy_def lookup0_def)

lemma sorted_bucket_fold:
  "sorted_wrt (<) (map fst obj) \<Longrightarrow>
     sorted_wrt (<) (map fst (fold (\<lambda>event obj. case key (timestamp event) of None \<Rightarrow> obj
                                  | Some k \<Rightarrow> incrIdx k obj) evs obj))"
proof (induction evs arbitrary: obj)
  case Nil
  then show ?case by simp
next
  case (Cons ev evs)
  show ?case
  proof (cases "key (timestamp ev)")
    case None
    then show ?thesis
      using Cons.IH[OF Cons.prems] by simp
  next
    case (Some j)
    have "sorted_wrt (<) (map fst (incrIdx j obj))"
      unfolding incrIdx_def by (rule sorted_assignIdx[OF Cons.prems])
    from Cons.IH[OF this] show ?thesis
      by (simp add: Some)
  qed
qed

lemma sorted_bucketBy: "sorted_wrt (<) (map fst (bucketBy key evs))"
  unfolding bucketBy_def by (rule sorted_bucket_fold) simp

section \<open>The scan for the fullest bucket\<close>

lemma peak_fold:
  assumes "sorted_wrt (<) (map fst es)"
  shows "c0 \<le> fst (fold peakStep es (c0, k0))
    \<and> (\<forall>p \<in> set es. snd p \<le> fst (fold peakStep es (c0, k0)))
    \<and> (fst (fold peakStep es (c0, k0)) = c0 \<longrightarrow> snd (fold peakStep es (c0, k0)) = k0)
    \<and> (c0 < fst (fold peakStep es (c0, k0)) \<longrightarrow>
          (snd (fold peakStep es (c0, k0)), fst (fold peakStep es (c0, k0))) \<in> set es
          \<and> (\<forall>p \<in> set es. snd p = fst (fold peakStep es (c0, k0))
                \<longrightarrow> snd (fold peakStep es (c0, k0)) \<le> fst p))"
  using assms
proof (induction es arbitrary: c0 k0)
  case Nil
  then show ?case by simp
next
  case (Cons p es)
  obtain k1 v1 where p: "p = (k1, v1)" by (cases p)
  have sorted: "sorted_wrt (<) (map fst es)" and above: "\<forall>q \<in> set es. k1 < fst q"
    using Cons.prems by (auto simp: p)
  show ?case
  proof (cases "v1 > c0")
    case True
    then have step: "fold peakStep (p # es) (c0, k0) = fold peakStep es (v1, k1)"
      by (simp add: p peakStep_def)
    note ih = Cons.IH[OF sorted, of v1 k1]
    define r where "r = fold peakStep es (v1, k1)"
    note ih' = ih[folded r_def]
    show ?thesis
      unfolding step r_def[symmetric]
    proof (intro conjI impI ballI)
      show "c0 \<le> fst r" using ih' True by simp
      show "snd q \<le> fst r" if "q \<in> set (p # es)" for q
        using that ih' by (auto simp: p)
      show "snd r = k0" if "fst r = c0"
        using that ih' True by simp
      assume "c0 < fst r"
      show "(snd r, fst r) \<in> set (p # es)"
      proof (cases "fst r = v1")
        case True
        with ih' show ?thesis by (simp add: p)
      next
        case False
        with ih' show ?thesis by simp
      qed
      show "snd r \<le> fst q" if "q \<in> set (p # es)" "snd q = fst r" for q
      proof (cases "fst r = v1")
        case eq: True
        then have "snd r = k1" using ih' by simp
        then show ?thesis
          using that above by (auto simp: p)
      next
        case False
        then have lt: "v1 < fst r" using ih' by simp
        then have "q \<noteq> p" using that(2) by (auto simp: p)
        then have "q \<in> set es" using that(1) by simp
        with ih' lt that(2) show ?thesis by simp
      qed
    qed
  next
    case False
    then have step: "fold peakStep (p # es) (c0, k0) = fold peakStep es (c0, k0)"
      by (simp add: p peakStep_def)
    note ih = Cons.IH[OF sorted, of c0 k0]
    define r where "r = fold peakStep es (c0, k0)"
    note ih' = ih[folded r_def]
    show ?thesis
      unfolding step r_def[symmetric]
    proof (intro conjI impI ballI)
      show "c0 \<le> fst r" using ih' by simp
      show "snd q \<le> fst r" if "q \<in> set (p # es)" for q
        using that ih' False by (auto simp: p)
      show "snd r = k0" if "fst r = c0"
        using that ih' by simp
      assume lt: "c0 < fst r"
      show "(snd r, fst r) \<in> set (p # es)"
        using ih' lt by simp
      show "snd r \<le> fst q" if "q \<in> set (p # es)" "snd q = fst r" for q
      proof -
        have "q \<noteq> p" using that(2) lt False by (auto simp: p)
        then have "q \<in> set es" using that(1) by simp
        with ih' lt that(2) show ?thesis by simp
      qed
    qed
  qed
qed

lemma peakScan_bucketBy:
  "(\<forall>j. countBy key evs j \<le> fst (peakScan (bucketBy key evs)))
   \<and> (0 < fst (peakScan (bucketBy key evs)) \<longrightarrow>
        countBy key evs (snd (peakScan (bucketBy key evs))) = fst (peakScan (bucketBy key evs))
        \<and> (\<forall>j. countBy key evs j = fst (peakScan (bucketBy key evs))
              \<longrightarrow> snd (peakScan (bucketBy key evs)) \<le> j))"
proof -
  define es where "es = bucketBy key evs"
  define r where "r = fold peakStep es (0, 0)"
  have sorted: "sorted_wrt (<) (map fst es)"
    by (simp add: es_def sorted_bucketBy)
  then have dist: "distinct (map fst es)"
    by (simp add: strict_sorted_iff)
  note pf = peak_fold[OF sorted, of 0 0, folded r_def]
  have cnt: "countBy key evs j = lookup0 es j" for j
    by (simp add: es_def lookup0_bucketBy)
  have mem: "(j, v) \<in> set es \<longleftrightarrow> map_of es j = Some v" for j v
    using dist by simp
  have le: "countBy key evs j \<le> fst r" for j
  proof (cases "map_of es j")
    case None
    then show ?thesis by (simp add: cnt lookup0_def)
  next
    case (Some v)
    then have "(j, v) \<in> set es" by (simp add: mem)
    with pf have "v \<le> fst r" by force
    with Some show ?thesis by (simp add: cnt lookup0_def)
  qed
  have win: "countBy key evs (snd r) = fst r \<and> (\<forall>j. countBy key evs j = fst r \<longrightarrow> snd r \<le> j)"
    if pos: "0 < fst r"
  proof (intro conjI allI impI)
    from pf pos have "(snd r, fst r) \<in> set es" by simp
    then show "countBy key evs (snd r) = fst r"
      by (simp add: cnt lookup0_def mem)
    fix j
    assume "countBy key evs j = fst r"
    then have "lookup0 es j = fst r" by (simp add: cnt)
    with pos have "map_of es j = Some (fst r)"
      by (auto simp: lookup0_def split: option.splits)
    then have "(j, fst r) \<in> set es" by (simp add: mem)
    with pf pos show "snd r \<le> j" by force
  qed
  show ?thesis
    using le win by (simp add: peakScan_def es_def[symmetric] r_def[symmetric])
qed


section \<open>The pattern signals\<close>

text \<open>
  Patterns are looked for when the events of the range fall on at least three distinct
  dates and are at least three. A bucket wins when it holds at least two events, no bucket
  holds more, and every bucket that holds as many has a key that is not smaller.
\<close>

definition eligible :: "env \<Rightarrow> int \<Rightarrow> SlipEvent list \<Rightarrow> bool" where
  "eligible e range' evs =
     (3 \<le> card ((\<lambda>ev. getDateFromTimestamp e (timestamp ev)) ` set (eventsInRange e range' evs))
      \<and> 3 \<le> length (eventsInRange e range' evs))"

definition hourCount :: "env \<Rightarrow> int \<Rightarrow> SlipEvent list \<Rightarrow> nat \<Rightarrow> nat" where
  "hourCount e range' evs = countBy (getHourFromTimestamp e) (eventsInRange e range' evs)"

definition weekdayCount :: "env \<Rightarrow> int \<Rightarrow> SlipEvent list \<Rightarrow> nat \<Rightarrow> nat" where
  "weekdayCount e range' evs = countBy (getDayOfWeekFromTimestamp e) (eventsInRange e range' evs)"

definition winner :: "(nat \<Rightarrow> nat) \<Rightarrow> nat \<Rightarrow> bool" where
  "winner cnt h = (2 \<le> cnt h \<and> (\<forall>k. cnt k \<le> cnt h) \<and> (\<forall>k. cnt k = cnt h \<longrightarrow> h \<le> k))"

lemma peakHour_useStats:
  "peakHour (useStats e range' evs dailyLimit)
     = (if eligible e range' evs
           \<and> 2 \<le> fst (peakScan (bucketBy (getHourFromTimestamp e) (eventsInRange e range' evs)))
        then Some (formatHourRange
               (snd (peakScan (bucketBy (getHourFromTimestamp e) (eventsInRange e range' evs)))))
        else None)"
  by (simp add: useStats_def Let_def eligible_def MIN_DAYS_FOR_PATTERNS_def
      length_remdups_card_conv)

lemma peakDayOfWeek_useStats:
  "peakDayOfWeek (useStats e range' evs dailyLimit)
     = (if eligible e range' evs
           \<and> 2 \<le> fst (peakScan (bucketBy (getDayOfWeekFromTimestamp e)
                          (eventsInRange e range' evs)))
        then getDayName
               (snd (peakScan (bucketBy (getDayOfWeekFromTimestamp e)
                  (eventsInRange e range' evs))))
        else None)"
  by (simp add: useStats_def Let_def eligible_def MIN_DAYS_FOR_PATTERNS_def
      length_remdups_card_conv)

lemma winner_peakScan:
  "2 \<le> fst (peakScan (bucketBy key evs)) \<Longrightarrow>
     winner (countBy key evs) (snd (peakScan (bucketBy key evs)))"
  using peakScan_bucketBy[of key evs] by (simp add: winner_def)

lemma peakScan_ge2: "2 \<le> countBy key evs h \<Longrightarrow> 2 \<le> fst (peakScan (bucketBy key evs))"
  using peakScan_bucketBy[of key evs] by (meson order_trans)

lemma weekday_lt_7:
  assumes "0 < countBy (getDayOfWeekFromTimestamp e) evs w"
  shows "w < 7"
proof -
  from assms have "filter (\<lambda>ev. getDayOfWeekFromTimestamp e (timestamp ev) = Some w) evs \<noteq> []"
    by (auto simp: countBy_def)
  then have "\<exists>ev :: SlipEvent. getDayOfWeekFromTimestamp e (timestamp ev) = Some w"
    by (auto simp: filter_empty_conv)
  then obtain ev :: SlipEvent where "getDayOfWeekFromTimestamp e (timestamp ev) = Some w" ..
  then obtain t where "w = getDay e t"
    by (auto simp: getDayOfWeekFromTimestamp_def)
  then show ?thesis
    by (simp add: getDay_def)
qed

text \<open>
  Claim C6. For every collection of events, \<open>peakHour\<close> and \<open>peakDayOfWeek\<close> are both
  \<open>null\<close> unless the events of the range span at least three distinct dates and are at
  least three. A reported peak hour is the label of an hour whose bucket holds at least two
  events and as many as any other bucket, and which is the lowest hour among the buckets
  that hold as many; the same holds for the reported weekday. When the collection is
  eligible and some bucket holds two events, a peak is reported.
\<close>

theorem patterns_gated:
  "(\<not> eligible e range' evs \<longrightarrow>
      peakHour (useStats e range' evs dailyLimit) = None
      \<and> peakDayOfWeek (useStats e range' evs dailyLimit) = None)
   \<and> (\<forall>label. peakHour (useStats e range' evs dailyLimit) = Some label \<longrightarrow>
        (\<exists>h. label = formatHourRange h \<and> winner (hourCount e range' evs) h))
   \<and> (\<forall>label. peakDayOfWeek (useStats e range' evs dailyLimit) = Some label \<longrightarrow>
        (\<exists>w. getDayName w = Some label \<and> winner (weekdayCount e range' evs) w))
   \<and> (eligible e range' evs \<and> (\<exists>h. 2 \<le> hourCount e range' evs h)
        \<longrightarrow> peakHour (useStats e range' evs dailyLimit) \<noteq> None)
   \<and> (eligible e range' evs \<and> (\<exists>w. 2 \<le> weekdayCount e range' evs w)
        \<longrightarrow> peakDayOfWeek (useStats e range' evs dailyLimit) \<noteq> None)"
proof (intro conjI impI allI)
  assume "\<not> eligible e range' evs"
  then show "peakHour (useStats e range' evs dailyLimit) = None"
    "peakDayOfWeek (useStats e range' evs dailyLimit) = None"
    by (simp_all add: peakHour_useStats peakDayOfWeek_useStats)
next
  fix label
  assume "peakHour (useStats e range' evs dailyLimit) = Some label"
  then show "\<exists>h. label = formatHourRange h \<and> winner (hourCount e range' evs) h"
    using winner_peakScan[of "getHourFromTimestamp e" "eventsInRange e range' evs"]
    by (auto simp: peakHour_useStats hourCount_def split: if_splits)
next
  fix label
  assume "peakDayOfWeek (useStats e range' evs dailyLimit) = Some label"
  then show "\<exists>w. getDayName w = Some label \<and> winner (weekdayCount e range' evs) w"
    using winner_peakScan[of "getDayOfWeekFromTimestamp e" "eventsInRange e range' evs"]
    by (auto simp: peakDayOfWeek_useStats weekdayCount_def split: if_splits)
next
  assume "eligible e range' evs \<and> (\<exists>h. 2 \<le> hourCount e range' evs h)"
  then show "peakHour (useStats e range' evs dailyLimit) \<noteq> None"
    using peakScan_ge2[of "getHourFromTimestamp e" "eventsInRange e range' evs"]
    by (auto simp: peakHour_useStats hourCount_def)
next
  assume a: "eligible e range' evs \<and> (\<exists>w. 2 \<le> weekdayCount e range' evs w)"
  define key where "key = getDayOfWeekFromTimestamp e"
  define inr where "inr = eventsInRange e range' evs"
  from a obtain w where "2 \<le> countBy key inr w"
    by (auto simp: weekdayCount_def key_def inr_def)
  then have ge: "2 \<le> fst (peakScan (bucketBy key inr))"
    by (rule peakScan_ge2)
  from winner_peakScan[OF this]
  have "0 < countBy key inr (snd (peakScan (bucketBy key inr)))"
    by (simp add: winner_def)
  then have "snd (peakScan (bucketBy key inr)) < 7"
    unfolding key_def by (rule weekday_lt_7)
  then have "getDayName (snd (peakScan (bucketBy key inr))) \<noteq> None"
    by (simp add: getDayName_def)
  then show "peakDayOfWeek (useStats e range' evs dailyLimit) \<noteq> None"
    using a ge by (simp add: peakDayOfWeek_useStats key_def inr_def)
qed

lemma example_hours:
  "getHourFromTimestamp utcHost ''2025-01-14T08:15:00.000Z'' = Some 8"
  "getHourFromTimestamp utcHost ''2025-01-14T21:40:00.000Z'' = Some 21"
  "getHourFromTimestamp utcHost ''2025-01-15T09:05:00.000Z'' = Some 9"
  "getHourFromTimestamp utcHost ''2025-01-15T13:30:00.000Z'' = Some 13"
  "getHourFromTimestamp utcHost ''2025-01-15T21:10:00.000Z'' = Some 21"
  "getHourFromTimestamp utcHost ''2025-01-16T07:45:00.000Z'' = Some 7"
  by (simp_all add: utcHost_hour[OF example_parse(1)] utcHost_hour[OF example_parse(2)]
      utcHost_hour[OF example_parse(3)] utcHost_hour[OF example_parse(4)]
      utcHost_hour[OF example_parse(5)] utcHost_hour[OF example_parse(6)])

lemma example_weekdays:
  "getDayOfWeekFromTimestamp utcHost ''2025-01-14T08:15:00.000Z'' = Some 2"
  "getDayOfWeekFromTimestamp utcHost ''2025-01-14T21:40:00.000Z'' = Some 2"
  "getDayOfWeekFromTimestamp utcHost ''2025-01-15T09:05:00.000Z'' = Some 3"
  "getDayOfWeekFromTimestamp utcHost ''2025-01-15T13:30:00.000Z'' = Some 3"
  "getDayOfWeekFromTimestamp utcHost ''2025-01-15T21:10:00.000Z'' = Some 3"
  "getDayOfWeekFromTimestamp utcHost ''2025-01-16T07:45:00.000Z'' = Some 4"
  by (simp_all add: utcHost_weekday[OF example_parse(1)] utcHost_weekday[OF example_parse(2)]
      utcHost_weekday[OF example_parse(3)] utcHost_weekday[OF example_parse(4)]
      utcHost_weekday[OF example_parse(5)] utcHost_weekday[OF example_parse(6)])

lemma streakExample_inRange: "eventsInRange utcHost 7 streakExample = streakExample"
  by (simp add: eventsInRange_def Let_def utcHost_lastDays streakExample_def slip_def
      example_dates)

lemma streakExample_eligible: "eligible utcHost 7 streakExample"
  unfolding eligible_def streakExample_inRange
  by (simp add: streakExample_def slip_def example_dates)

lemma statsExample_not_eligible: "\<not> eligible utcHost 7 statsExample"
  unfolding eligible_def statsExample_inRange
  by (simp add: statsExample_def slip_def example_dates)

lemma streakExample_hourCount:
  "hourCount utcHost 7 streakExample h
     = (if h = 21 then 2 else if h \<in> {7, 8, 9, 13} then 1 else 0)"
  unfolding hourCount_def streakExample_inRange
  by (simp add: countBy_def streakExample_def slip_def example_hours)

lemma streakExample_weekdayCount:
  "weekdayCount utcHost 7 streakExample w
     = (if w = 2 then 2 else if w = 3 then 3 else if w = 4 then 1 else 0)"
  unfolding weekdayCount_def streakExample_inRange
  by (simp add: countBy_def streakExample_def slip_def example_weekdays)

theorem patterns_gated_witness:
  "eligible utcHost 7 streakExample
   \<and> peakHour (useStats utcHost 7 streakExample 3) = Some (formatHourRange 21)
   \<and> peakDayOfWeek (useStats utcHost 7 streakExample 3) = Some ''Wednesday''
   \<and> \<not> eligible utcHost 7 statsExample
   \<and> peakHour (useStats utcHost 7 statsExample 3) = None
   \<and> peakDayOfWeek (useStats utcHost 7 statsExample 3) = None"
proof -
  note t = patterns_gated[of utcHost 7 streakExample 3]
  have "\<exists>h. 2 \<le> hourCount utcHost 7 streakExample h"
    by (rule exI[of _ 21]) (simp add: streakExample_hourCount)
  with t streakExample_eligible
  obtain label where l: "peakHour (useStats utcHost 7 streakExample 3) = Some label"
    by blast
  with t obtain h where h: "label = formatHourRange h" "winner (hourCount utcHost 7 streakExample) h"
    by blast
  from h(2) have "h = 21"
    by (simp add: winner_def streakExample_hourCount split: if_splits)
  with l h(1) have ph: "peakHour (useStats utcHost 7 streakExample 3) = Some (formatHourRange 21)"
    by simp
  have "\<exists>w. 2 \<le> weekdayCount utcHost 7 streakExample w"
    by (rule exI[of _ 3]) (simp add: streakExample_weekdayCount)
  with t streakExample_eligible
  obtain name where n: "peakDayOfWeek (useStats utcHost 7 streakExample 3) = Some name"
    by blast
  with t obtain w where w: "getDayName w = Some name" "winner (weekdayCount utcHost 7 streakExample) w"
    by blast
  from w(2) have "weekdayCount utcHost 7 streakExample 3 \<le> weekdayCount utcHost 7 streakExample w"
    by (simp add: winner_def)
  then have "w = 3"
    by (simp add: streakExample_weekdayCount split: if_splits)
  with w(1) have "name = ''Wednesday''"
    by (simp add: getDayName_def)
  with n have pd: "peakDayOfWeek (useStats utcHost 7 streakExample 3) = Some ''Wednesday''"
    by simp
  from patterns_gated[of utcHost 7 statsExample 3] statsExample_not_eligible
  have "peakHour (useStats utcHost 7 statsExample 3) = None
      \<and> peakDayOfWeek (useStats utcHost 7 statsExample 3) = None"
    by blast
  with ph pd streakExample_eligible statsExample_not_eligible show ?thesis
    by blast
qed

end
